theory Spec2Isabelle
  imports Main "HOL-Library.Word" "HOL-Library.Multiset"
begin

section \<open>ROCm reduction kernels (reduction\_ops.h)\<close>

text \<open>
  The header declares the two miopen enumerations itself; they are taken over as they
  stand.
\<close>

datatype miopenReduceTensorOp_t =
    MIOPEN_REDUCE_TENSOR_ADD
  | MIOPEN_REDUCE_TENSOR_MUL
  | MIOPEN_REDUCE_TENSOR_MIN
  | MIOPEN_REDUCE_TENSOR_MAX
  | MIOPEN_REDUCE_TENSOR_AVG
  | MIOPEN_REDUCE_TENSOR_NORM1
  | MIOPEN_REDUCE_TENSOR_NORM2

datatype miopenReduceTensorIndices_t =
    MIOPEN_REDUCE_TENSOR_NO_INDICES
  | MIOPEN_REDUCE_TENSOR_FLATTENED_INDICES

text \<open>
  The four flags of \<open>ReduceKernel\<close> (the source's members end in an underscore,
  which a constant name here cannot: \<open>calculate_log\<close> is \<open>calculate_log_\<close>), and the template parameter \<open>allow_multi_axes\<close>
  the derived class instantiates it with. The other members (the execution provider,
  the axes of the base class) take no part in the dispatch.
\<close>

record ReduceKernel =
  allow_multi_axes :: bool
  calculate_log :: bool
  calculate_sqt :: bool
  log_sum_exp :: bool
  fast_reduction :: bool

text \<open>The constructor of \<open>ReduceKernel\<close>: its initialiser list.\<close>

definition ReduceKernel_ctor :: "bool \<Rightarrow> ReduceKernel" where
  "ReduceKernel_ctor multi =
     \<lparr>allow_multi_axes = multi, calculate_log = False, calculate_sqt = False,
      log_sum_exp = False, fast_reduction = False\<rparr>"

text \<open>The twelve kernel classes of the header, in the order they are declared.\<close>

datatype reduction_class =
    ArgMax | ArgMin | ReduceL1 | ReduceL2 | ReduceMax | ReduceMean | ReduceMin
  | ReduceProd | ReduceSum | ReduceLogSum | ReduceSumSquare | ReduceLogSumExp

text \<open>Each class's constructor: the base constructor, then the constructor body.\<close>

fun construct :: "reduction_class \<Rightarrow> ReduceKernel" where
  "construct ArgMax = ReduceKernel_ctor False"
| "construct ArgMin = ReduceKernel_ctor False"
| "construct ReduceL1 = ReduceKernel_ctor True"
| "construct ReduceL2 = ReduceKernel_ctor True"
| "construct ReduceMax = ReduceKernel_ctor True"
| "construct ReduceMean = ReduceKernel_ctor True"
| "construct ReduceMin = ReduceKernel_ctor True"
| "construct ReduceProd = ReduceKernel_ctor True"
| "construct ReduceSum = (ReduceKernel_ctor True)\<lparr>fast_reduction := True\<rparr>"
| "construct ReduceLogSum = (ReduceKernel_ctor True)\<lparr>calculate_log := True\<rparr>"
| "construct ReduceSumSquare = (ReduceKernel_ctor True)\<lparr>calculate_sqt := True\<rparr>"
| "construct ReduceLogSumExp = (ReduceKernel_ctor True)\<lparr>log_sum_exp := True\<rparr>"

text \<open>
  \<open>ComputeInternal\<close> is a single call of \<open>ComputeImpl<T, ReduceTensorIndices>(ctx, op)\<close>,
  whose body is not part of the header. The call is recorded: the template argument
  (\<open>MIOPEN_REDUCE_TENSOR_NO_INDICES\<close> where the source leaves it to the default) and
  the reduce op passed.
\<close>

record ComputeImpl_call =
  ReduceTensorIndices :: miopenReduceTensorIndices_t
  miopen_reduce_op :: miopenReduceTensorOp_t

fun ComputeInternal :: "reduction_class \<Rightarrow> ComputeImpl_call" where
  "ComputeInternal ArgMax =
     \<lparr>ReduceTensorIndices = MIOPEN_REDUCE_TENSOR_FLATTENED_INDICES,
      miopen_reduce_op = MIOPEN_REDUCE_TENSOR_MAX\<rparr>"
| "ComputeInternal ArgMin =
     \<lparr>ReduceTensorIndices = MIOPEN_REDUCE_TENSOR_FLATTENED_INDICES,
      miopen_reduce_op = MIOPEN_REDUCE_TENSOR_MIN\<rparr>"
| "ComputeInternal ReduceL1 =
     \<lparr>ReduceTensorIndices = MIOPEN_REDUCE_TENSOR_NO_INDICES,
      miopen_reduce_op = MIOPEN_REDUCE_TENSOR_NORM1\<rparr>"
| "ComputeInternal ReduceL2 =
     \<lparr>ReduceTensorIndices = MIOPEN_REDUCE_TENSOR_NO_INDICES,
      miopen_reduce_op = MIOPEN_REDUCE_TENSOR_NORM2\<rparr>"
| "ComputeInternal ReduceMax =
     \<lparr>ReduceTensorIndices = MIOPEN_REDUCE_TENSOR_NO_INDICES,
      miopen_reduce_op = MIOPEN_REDUCE_TENSOR_MAX\<rparr>"
| "ComputeInternal ReduceMean =
     \<lparr>ReduceTensorIndices = MIOPEN_REDUCE_TENSOR_NO_INDICES,
      miopen_reduce_op = MIOPEN_REDUCE_TENSOR_AVG\<rparr>"
| "ComputeInternal ReduceMin =
     \<lparr>ReduceTensorIndices = MIOPEN_REDUCE_TENSOR_NO_INDICES,
      miopen_reduce_op = MIOPEN_REDUCE_TENSOR_MIN\<rparr>"
| "ComputeInternal ReduceProd =
     \<lparr>ReduceTensorIndices = MIOPEN_REDUCE_TENSOR_NO_INDICES,
      miopen_reduce_op = MIOPEN_REDUCE_TENSOR_MUL\<rparr>"
| "ComputeInternal ReduceSum =
     \<lparr>ReduceTensorIndices = MIOPEN_REDUCE_TENSOR_NO_INDICES,
      miopen_reduce_op = MIOPEN_REDUCE_TENSOR_ADD\<rparr>"
| "ComputeInternal ReduceLogSum =
     \<lparr>ReduceTensorIndices = MIOPEN_REDUCE_TENSOR_NO_INDICES,
      miopen_reduce_op = MIOPEN_REDUCE_TENSOR_ADD\<rparr>"
| "ComputeInternal ReduceSumSquare =
     \<lparr>ReduceTensorIndices = MIOPEN_REDUCE_TENSOR_NO_INDICES,
      miopen_reduce_op = MIOPEN_REDUCE_TENSOR_ADD\<rparr>"
| "ComputeInternal ReduceLogSumExp =
     \<lparr>ReduceTensorIndices = MIOPEN_REDUCE_TENSOR_NO_INDICES,
      miopen_reduce_op = MIOPEN_REDUCE_TENSOR_ADD\<rparr>"

section \<open>The ATen operator executor: tensor exchange and argument conversion\<close>

text \<open>
  Failures are values. An internal assertion is named by the line of the source file it
  stands on. The other constructors are the failures the host library raises
  (\<open>IValue::toTensor\<close> on a value that is no tensor, \<open>optional::value\<close> on an empty
  optional, \<open>unordered_map::at\<close> on an absent key, an operation on an undefined tensor)
  and the two undefined behaviours the source can run into: an unchecked \<open>operator[]\<close>
  past the end of a vector and a dereferenced null pointer.
\<close>

datatype error =
    TORCH_INTERNAL_ASSERT nat
  | not_a_tensor
  | bad_optional_access
  | vector_out_of_range
  | map_out_of_range
  | null_dereference
  | undefined_tensor

datatype DLDataTypeCode = kDLInt | kDLUInt | kDLFloat | kDLOtherCode

record DLDataType =
  code :: DLDataTypeCode
  bits :: "8 word"

text \<open>
  \<open>data\<close> and \<open>shape\<close> are pointers: the memory behind \<open>data\<close> is a function from byte
  offsets to bytes, the array behind \<open>shape\<close> a function from indices to 64-bit words,
  and \<open>None\<close> is the null pointer.
\<close>

record DLTensor =
  data :: "nat \<Rightarrow> 8 word"
  ndim :: "32 word"
  dtype :: DLDataType
  shape :: "(nat \<Rightarrow> 64 word) option"

text \<open>
  A tensor handle: the \<open>TensorImpl\<close> it points to, and what the executor asks of it.
  The gradient slot \<open>grad()\<close> lives in the impl, so its address is fixed by the impl.
\<close>

record Tensor =
  impl :: nat
  is_contiguous :: bool
  requires_grad :: bool
  grad_fn :: "nat option"

definition grad_address :: "Tensor \<Rightarrow> nat" where
  "grad_address t = impl t"

text \<open>\<open>Tensor::contiguous\<close> of the host library: a contiguous tensor of the same contents.\<close>

definition contiguous :: "Tensor \<Rightarrow> Tensor" where
  "contiguous t = t\<lparr>is_contiguous := True\<rparr>"

text \<open>
  A managed tensor, as far as the executor looks into it: the \<open>DLTensor\<close> it carries.
\<close>

record DLManagedTensor =
  dl_tensor :: DLTensor

datatype IValue =
    IV_None
  | IV_Tensor Tensor
  | IV_Int "64 word"
  | IV_Double "32 word"
  | IV_Bool bool
  | IV_String string
  | IV_IntList "64 word list"
  | IV_DoubleList "32 word list"
  | IV_BoolList "bool list"

text \<open>\<open>IValue(c10::optional<T>)\<close>: the value itself when there is one, \<open>None\<close> otherwise.\<close>

fun IValue_optional :: "IValue option \<Rightarrow> IValue" where
  "IValue_optional None = IV_None"
| "IValue_optional (Some v) = v"

text \<open>
  Reading the memory through a typed pointer (\<open>reinterpret_cast<const T*>(data)[i]\<close>):
  eight bytes for \<open>int64_t\<close> (least significant first), four for \<open>float\<close> (kept as its
  bit pattern), one for \<open>bool\<close> (a byte that is not zero reads as true).
\<close>

definition load_int64 :: "(nat \<Rightarrow> 8 word) \<Rightarrow> nat \<Rightarrow> 64 word" where
  "load_int64 mem i = word_rcat (rev (map (\<lambda>k. mem (8 * i + k)) [0..<8]))"

definition load_float :: "(nat \<Rightarrow> 8 word) \<Rightarrow> nat \<Rightarrow> 32 word" where
  "load_float mem i = word_rcat (rev (map (\<lambda>k. mem (4 * i + k)) [0..<4]))"

definition load_bool :: "(nat \<Rightarrow> 8 word) \<Rightarrow> nat \<Rightarrow> bool" where
  "load_bool mem i = (mem i \<noteq> 0)"

text \<open>\<open>static_cast<bool>\<close> of an \<open>int64_t\<close>.\<close>

definition int64_to_bool :: "64 word \<Rightarrow> bool" where
  "int64_to_bool x = (x \<noteq> 0)"

text \<open>
  The shape test of the scalar conversions:
  \<open>(ndim == 0 && shape == nullptr) || (ndim == 1 && shape[0] == 1)\<close>, evaluated left to
  right; \<open>shape[0]\<close> through a null \<open>shape\<close> is a null dereference.
\<close>

definition scalar_shape :: "DLTensor \<Rightarrow> error + bool" where
  "scalar_shape t =
     (if ndim t = 0 \<and> shape t = None then Inr True
      else if ndim t = 1 then
        (case shape t of None \<Rightarrow> Inl null_dereference | Some sh \<Rightarrow> Inr (sh 0 = 1))
      else Inr False)"

text \<open>The loop \<open>for (size_t i = 0; i < len; i++) list_value.emplace_back(f(p_data[i]))\<close>.\<close>

function emplace_loop :: "(nat \<Rightarrow> 'a) \<Rightarrow> nat \<Rightarrow> nat \<Rightarrow> 'a list \<Rightarrow> 'a list" where
  "emplace_loop f i len list_value =
     (if i < len then emplace_loop f (i + 1) len (list_value @ [f i]) else list_value)"
  by pat_completeness auto
termination
  by (relation "measure (\<lambda>(f, i, len, list_value). len - i)") auto

declare emplace_loop.simps [simp del]

text \<open>
  The templates \<open>ToIValue<T>\<close> and \<open>ToListIValue<T>\<close>: \<open>load\<close> reads a \<open>T\<close> and \<open>mk\<close>,
  \<open>mkl\<close> are the \<open>IValue\<close> constructors of \<open>T\<close> and of \<open>c10::List<T>\<close>.
\<close>

definition ToIValue ::
  "((nat \<Rightarrow> 8 word) \<Rightarrow> nat \<Rightarrow> 'a) \<Rightarrow> ('a \<Rightarrow> IValue) \<Rightarrow> DLManagedTensor \<Rightarrow> bool \<Rightarrow> error + IValue" where
  "ToIValue load mk dlpack is_optional =
     (case scalar_shape (dl_tensor dlpack) of
        Inl e \<Rightarrow> Inl e
      | Inr ok \<Rightarrow>
          if \<not> ok then Inl (TORCH_INTERNAL_ASSERT 24)
          else let v = load (data (dl_tensor dlpack)) 0
               in Inr (if is_optional then IValue_optional (Some (mk v)) else mk v))"

definition ToListIValue ::
  "((nat \<Rightarrow> 8 word) \<Rightarrow> nat \<Rightarrow> 'a) \<Rightarrow> ('a list \<Rightarrow> IValue) \<Rightarrow> DLManagedTensor \<Rightarrow> bool \<Rightarrow> error + IValue" where
  "ToListIValue load mkl dlpack is_optional =
     (if ndim (dl_tensor dlpack) \<noteq> 1 then Inl (TORCH_INTERNAL_ASSERT 32)
      else case shape (dl_tensor dlpack) of
        None \<Rightarrow> Inl null_dereference
      | Some sh \<Rightarrow>
          let list_value = emplace_loop (load (data (dl_tensor dlpack))) 0 (unat (sh 0)) []
          in Inr (if is_optional then IValue_optional (Some (mkl list_value))
                  else mkl list_value))"

definition Int64ToBoolIValue :: "DLManagedTensor \<Rightarrow> bool \<Rightarrow> bool \<Rightarrow> error + IValue" where
  "Int64ToBoolIValue dlpack is_list is_optional =
     (if is_list then
        (if ndim (dl_tensor dlpack) \<noteq> 1 then Inl (TORCH_INTERNAL_ASSERT 44)
         else case shape (dl_tensor dlpack) of
           None \<Rightarrow> Inl null_dereference
         | Some sh \<Rightarrow>
             let list_value =
                   emplace_loop (\<lambda>i. int64_to_bool (load_int64 (data (dl_tensor dlpack)) i))
                     0 (unat (sh 0)) []
             in Inr (if is_optional then IValue_optional (Some (IV_BoolList list_value))
                     else IV_BoolList list_value))
      else
        (case scalar_shape (dl_tensor dlpack) of
           Inl e \<Rightarrow> Inl e
         | Inr ok \<Rightarrow>
             if \<not> ok then Inl (TORCH_INTERNAL_ASSERT 54)
             else let v = int64_to_bool (load_int64 (data (dl_tensor dlpack)) 0)
                  in Inr (if is_optional then IValue_optional (Some (IV_Bool v))
                          else IV_Bool v)))"

section \<open>Operator schemas and the operator cache\<close>

text \<open>
  The kinds of \<open>c10::TypeKind\<close> the executor tells apart, and a few it does not
  support. A type is a base type or an \<open>Optional\<close> or \<open>List\<close> around a type.
\<close>

datatype TypeKind =
    TensorType | IntType | FloatType | BoolType | OptionalType | ListType
  | StringType | NumberType | DeviceObjType | NoneType

datatype Type =
    TensorT | IntT | FloatT | BoolT | StringT | NumberT | DeviceObjT | NoneT
  | OptionalT Type
  | ListT Type

fun kind :: "Type \<Rightarrow> TypeKind" where
  "kind TensorT = TensorType"
| "kind IntT = IntType"
| "kind FloatT = FloatType"
| "kind BoolT = BoolType"
| "kind StringT = StringType"
| "kind NumberT = NumberType"
| "kind DeviceObjT = DeviceObjType"
| "kind NoneT = NoneType"
| "kind (OptionalT t) = OptionalType"
| "kind (ListT t) = ListType"

text \<open>
  \<open>getElementType\<close> after the \<open>reinterpret_cast\<close> to \<open>OptionalType*\<close> or \<open>ListType*\<close>.
  The source casts only a type whose kind it has just tested, so the other equations
  are never reached.
\<close>

fun getElementType :: "Type \<Rightarrow> Type" where
  "getElementType (OptionalT t) = t"
| "getElementType (ListT t) = t"
| "getElementType t = t"

record Argument =
  arg_type :: Type
  default_value :: "IValue option"

record FunctionSchema =
  arguments :: "Argument list"
  returns :: "Argument list"

text \<open>
  A node of the autograd graph, as the executor reads it: its \<open>name()\<close>, the functions
  of its \<open>next_edges()\<close> (a \<open>shared_ptr\<close>, \<open>None\<close> when null) and, for an
  \<open>AccumulateGrad\<close> node, its member \<open>variable\<close>. Nodes live at addresses; the graph is
  the function from addresses to nodes.
\<close>

record Node =
  name :: string
  next_edges :: "nat option list"
  variable :: Tensor

type_synonym graph = "nat \<Rightarrow> Node"

text \<open>
  A registered operator: its schema, and its operation, which belongs to the host
  library. The operation takes the stack (and whether autograd is recording) and
  leaves the stack it returns and the autograd graph that then exists.
\<close>

record Operator =
  schema :: FunctionSchema
  getOperation :: "bool \<Rightarrow> IValue list \<Rightarrow> IValue list \<times> graph"

record ATenOperator =
  op :: Operator
  argument_size :: nat
  elem_kinds :: "TypeKind list"
  is_list_arguments :: "bool list"
  is_optional_arguments :: "bool list"
  default_values :: "IValue option list"
  return_size :: nat

text \<open>The functions of the host library the executor calls.\<close>

record host =
  fromDLPack :: "DLManagedTensor \<Rightarrow> Tensor"
  toDLPack :: "Tensor \<Rightarrow> DLManagedTensor"
  findOperatorFor :: "string \<times> string \<Rightarrow> Operator option"

text \<open>\<open>v[i]\<close> on a \<open>std::vector\<close>: unchecked, undefined past the end.\<close>

definition vector_at :: "'a list \<Rightarrow> nat \<Rightarrow> error + 'a" where
  "vector_at v i = (if i < length v then Inr (v ! i) else Inl vector_out_of_range)"

definition ToIValueArgument ::
  "host \<Rightarrow> ATenOperator \<Rightarrow> DLManagedTensor option \<Rightarrow> nat \<Rightarrow> error + IValue" where
  "ToIValueArgument h aten_op dlpack index =
     (if \<not> index < argument_size aten_op then Inl (TORCH_INTERNAL_ASSERT 70)
      else case vector_at (is_optional_arguments aten_op) index of
        Inl e \<Rightarrow> Inl e
      | Inr is_optional \<Rightarrow>
         (case dlpack of
            None \<Rightarrow>
              if is_optional then Inr (IValue_optional None)
              else (case vector_at (default_values aten_op) index of
                      Inl e \<Rightarrow> Inl e
                    | Inr None \<Rightarrow> Inl (TORCH_INTERNAL_ASSERT 72)
                    | Inr (Some d) \<Rightarrow> Inr d)
          | Some dl \<Rightarrow>
             (case vector_at (is_list_arguments aten_op) index of
                Inl e \<Rightarrow> Inl e
              | Inr is_list \<Rightarrow>
                 (case vector_at (elem_kinds aten_op) index of
                    Inl e \<Rightarrow> Inl e
                  | Inr TensorType \<Rightarrow>
                      let tensor = fromDLPack h dl
                      in Inr (if is_optional then IValue_optional (Some (IV_Tensor tensor))
                              else IV_Tensor tensor)
                  | Inr IntType \<Rightarrow>
                      if \<not> (code (dtype (dl_tensor dl)) = kDLInt \<and> bits (dtype (dl_tensor dl)) = 64)
                      then Inl (TORCH_INTERNAL_ASSERT 90)
                      else if is_list then ToListIValue load_int64 IV_IntList dl is_optional
                      else ToIValue load_int64 IV_Int dl is_optional
                  | Inr FloatType \<Rightarrow>
                      if \<not> (code (dtype (dl_tensor dl)) = kDLFloat \<and> bits (dtype (dl_tensor dl)) = 32)
                      then Inl (TORCH_INTERNAL_ASSERT 95)
                      else if is_list then ToListIValue load_float IV_DoubleList dl is_optional
                      else ToIValue load_float IV_Double dl is_optional
                  | Inr BoolType \<Rightarrow>
                      if code (dtype (dl_tensor dl)) = kDLInt \<and> bits (dtype (dl_tensor dl)) = 64
                      then Int64ToBoolIValue dl is_list is_optional
                      else if \<not> (code (dtype (dl_tensor dl)) = kDLUInt \<and> bits (dtype (dl_tensor dl)) = 8)
                      then Inl (TORCH_INTERNAL_ASSERT 105)
                      else if is_list then ToListIValue load_bool IV_BoolList dl is_optional
                      else ToIValue load_bool IV_Bool dl is_optional
                  | Inr _ \<Rightarrow> Inl (TORCH_INTERNAL_ASSERT 111)))))"

text \<open>
  The body of the loop over \<open>schema.arguments()\<close> in \<open>GetOperator\<close>: the four values it
  appends for one argument, or the failed assertion of line 156.
\<close>

definition argument_metadata :: "Argument \<Rightarrow> error + TypeKind \<times> bool \<times> bool \<times> IValue option" where
  "argument_metadata argument =
     (let type = arg_type argument;
          elem_type = kind type;
          is_optional = (elem_type = OptionalType);
          is_list = (elem_type = ListType);
          type = (if is_optional then getElementType type else type);
          elem_type = (if is_optional then kind type else elem_type);
          is_list = (if is_optional then (elem_type = ListType) else is_list);
          elem_type = (if is_list then kind (getElementType type) else elem_type)
      in if \<not> (elem_type \<noteq> TensorType \<or> \<not> is_list) then Inl (TORCH_INTERNAL_ASSERT 156)
         else Inr (elem_type, is_list, is_optional, default_value argument))"

fun add_arguments :: "Argument list \<Rightarrow> ATenOperator \<Rightarrow> error + ATenOperator" where
  "add_arguments [] aten_op = Inr aten_op"
| "add_arguments (argument # rest) aten_op =
     (case argument_metadata argument of
        Inl e \<Rightarrow> Inl e
      | Inr (elem_type, is_list, is_optional, dflt) \<Rightarrow>
          add_arguments rest
            (aten_op\<lparr>elem_kinds := elem_kinds aten_op @ [elem_type],
                     is_list_arguments := is_list_arguments aten_op @ [is_list],
                     is_optional_arguments := is_optional_arguments aten_op @ [is_optional],
                     default_values := default_values aten_op @ [dflt]\<rparr>))"

fun check_returns :: "Argument list \<Rightarrow> error + unit" where
  "check_returns [] = Inr ()"
| "check_returns (ret # rest) =
     (if kind (arg_type ret) \<noteq> TensorType then Inl (TORCH_INTERNAL_ASSERT 164)
      else check_returns rest)"

text \<open>
  \<open>AutogradContext\<close>: the output's \<open>grad_fn\<close> and the inputs' accumulators, each a
  \<open>shared_ptr\<close> that may be null.
\<close>

record AutogradContext =
  output_grad_fn :: "nat option"
  input_grad_fns :: "nat option list"

text \<open>
  The state behind the two singletons and the host: the map \<open>ops_\<close> of
  \<open>ATenOperatorCache\<close>, the static counter \<open>context_id_\<close> of \<open>CreateId\<close> (a 64-bit
  atomic, whose increment wraps; here \<open>context_id_counter\<close>), the map \<open>autograd_contexts_\<close> of
  \<open>AutogradContextCache\<close>, and the thread's autograd mode. \<open>executed\<close> belongs to no
  source variable: it lists the operations run so far with the stacks they were run
  on, so that a statement can count them.
\<close>

record state =
  ops :: "string \<times> string \<rightharpoonup> ATenOperator"
  context_id_counter :: "64 word"
  autograd_contexts :: "64 word \<rightharpoonup> AutogradContext"
  grad_mode :: bool
  executed :: "(Operator \<times> IValue list) list"

text \<open>\<open>unordered_map::emplace\<close>: inserts only when the key is absent.\<close>

definition emplace :: "('k \<rightharpoonup> 'v) \<Rightarrow> 'k \<Rightarrow> 'v \<Rightarrow> ('k \<rightharpoonup> 'v)" where
  "emplace m k v = (if k \<in> dom m then m else m(k \<mapsto> v))"

definition GetOperator ::
  "host \<Rightarrow> string \<Rightarrow> string \<Rightarrow> state \<Rightarrow> (error + ATenOperator) \<times> state" where
  "GetOperator h op_name overload_name s =
     (let key = (op_name, overload_name) in
      case ops s key of
        Some cached \<Rightarrow> (Inr cached, s)
      | None \<Rightarrow>
         (case findOperatorFor h key of
            None \<Rightarrow> (Inl (TORCH_INTERNAL_ASSERT 138), s)
          | Some found \<Rightarrow>
             (let aten_op = \<lparr>op = found, argument_size = length (arguments (schema found)),
                             elem_kinds = [], is_list_arguments = [],
                             is_optional_arguments = [], default_values = [],
                             return_size = 0\<rparr>
              in case add_arguments (arguments (schema found)) aten_op of
                   Inl e \<Rightarrow> (Inl e, s)
                 | Inr aten_op \<Rightarrow>
                    (let aten_op = aten_op\<lparr>return_size := length (returns (schema found))\<rparr>
                     in case check_returns (returns (schema found)) of
                          Inl e \<Rightarrow> (Inl e, s)
                        | Inr _ \<Rightarrow>
                           (let s = s\<lparr>ops := emplace (ops s) key aten_op\<rparr>
                            in case ops s key of
                                 None \<Rightarrow> (Inl map_out_of_range, s)
                               | Some stored \<Rightarrow> (Inr stored, s))))))"

definition CreateId :: "state \<Rightarrow> 64 word \<times> state" where
  "CreateId s = (context_id_counter s, s\<lparr>context_id_counter := context_id_counter s + 1\<rparr>)"

definition Insert :: "AutogradContext \<Rightarrow> state \<Rightarrow> 64 word \<times> state" where
  "Insert autograd_context s =
     (let (context_id, s) = CreateId s
      in (context_id,
          s\<lparr>autograd_contexts := emplace (autograd_contexts s) context_id autograd_context\<rparr>))"

definition Pop :: "64 word \<Rightarrow> state \<Rightarrow> (error + AutogradContext) \<times> state" where
  "Pop context_id s =
     (case autograd_contexts s context_id of
        None \<Rightarrow> (Inl (TORCH_INTERNAL_ASSERT 200), s)
      | Some autograd_context \<Rightarrow>
          (Inr autograd_context,
           s\<lparr>autograd_contexts := (autograd_contexts s)(context_id := None)\<rparr>))"

text \<open>The state of a process that has called neither cache yet.\<close>

definition initial_state :: "bool \<Rightarrow> state" where
  "initial_state mode =
     \<lparr>ops = Map.empty, context_id_counter = 0, autograd_contexts = Map.empty,
      grad_mode = mode, executed = []\<rparr>"

definition IsTensorArgument ::
  "host \<Rightarrow> string \<Rightarrow> string \<Rightarrow> nat \<Rightarrow> state \<Rightarrow> (error + bool) \<times> state" where
  "IsTensorArgument h op_name overload_name index s =
     (case GetOperator h op_name overload_name s of
        (Inl e, s) \<Rightarrow> (Inl e, s)
      | (Inr aten_op, s) \<Rightarrow>
          if \<not> index < argument_size aten_op then (Inl (TORCH_INTERNAL_ASSERT 219), s)
          else (case vector_at (elem_kinds aten_op) index of
                  Inl e \<Rightarrow> (Inl e, s)
                | Inr k \<Rightarrow> (Inr (k = TensorType), s)))"

section \<open>Executing an operator and recording its autograd context\<close>

definition AccumulateGrad_name :: string where
  "AccumulateGrad_name = ''torch::autograd::AccumulateGrad''"

text \<open>\<open>IValue::toTensor\<close> and \<open>IValue::toOptional<at::Tensor>().value()\<close>.\<close>

definition toTensor :: "IValue \<Rightarrow> error + Tensor" where
  "toTensor v = (case v of IV_Tensor t \<Rightarrow> Inr t | _ \<Rightarrow> Inl not_a_tensor)"

definition toOptionalTensor_value :: "IValue \<Rightarrow> error + Tensor" where
  "toOptionalTensor_value v =
     (case v of IV_None \<Rightarrow> Inl bad_optional_access | IV_Tensor t \<Rightarrow> Inr t | _ \<Rightarrow> Inl not_a_tensor)"

text \<open>
  The loop over the tensors \<open>torch::jit::pop\<close> returns: each is exported, made
  contiguous first when it is not.
\<close>

fun export_returns :: "host \<Rightarrow> IValue list \<Rightarrow> DLManagedTensor list \<Rightarrow> error + DLManagedTensor list" where
  "export_returns h [] result = Inr result"
| "export_returns h (ret # rest) result =
     (case toTensor ret of
        Inl e \<Rightarrow> Inl e
      | Inr tensor \<Rightarrow>
          export_returns h rest
            (result @ [toDLPack h (if is_contiguous tensor then tensor else contiguous tensor)]))"

text \<open>
  \<open>ExecuteInternal\<close>. The operation runs on the stack of the arguments; the call is
  entered in \<open>executed\<close>. \<open>pop(stack, return_size)\<close> takes the last \<open>return_size\<close>
  entries of the stack, and reads past its start when there are fewer. The result is
  the first output (a default \<open>IValue\<close> when nothing is returned), the exported
  tensors and the graph the operation left.
\<close>

definition ExecuteInternal ::
  "host \<Rightarrow> Operator \<Rightarrow> IValue list \<Rightarrow> nat \<Rightarrow> DLManagedTensor list \<Rightarrow> state
     \<Rightarrow> (error + IValue \<times> DLManagedTensor list \<times> graph) \<times> state" where
  "ExecuteInternal h op' arguments' return_size' result s =
     (let stack = arguments';
          (stack, g) = getOperation op' (grad_mode s) stack;
          s = s\<lparr>executed := executed s @ [(op', arguments')]\<rparr>
      in if length stack < return_size' then (Inl vector_out_of_range, s)
         else let rets = drop (length stack - return_size') stack;
                  first_output = (case rets of [] \<Rightarrow> IV_None | ret # _ \<Rightarrow> ret)
              in case export_returns h rets result of
                   Inl e \<Rightarrow> (Inl e, s)
                 | Inr result \<Rightarrow> (Inr (first_output, result, g), s))"

text \<open>The loop converting the \<open>dlpacks\<close>, index by index.\<close>

fun convert_arguments ::
  "host \<Rightarrow> ATenOperator \<Rightarrow> DLManagedTensor option list \<Rightarrow> nat \<Rightarrow> IValue list \<Rightarrow> error + IValue list" where
  "convert_arguments h aten_op [] i arguments' = Inr arguments'"
| "convert_arguments h aten_op (dlpack # rest) i arguments' =
     (case ToIValueArgument h aten_op dlpack i of
        Inl e \<Rightarrow> Inl e
      | Inr v \<Rightarrow> convert_arguments h aten_op rest (i + 1) (arguments' @ [v]))"

text \<open>
  The loop over \<open>requires_grad\<close>. Only its length is read: argument \<open>i\<close> is taken for
  \<open>i\<close> below that length. \<open>requires_grad_(true)\<close> acts on the impl the argument shares
  with the local handle, so the argument sees it; the address of the tensor's gradient
  slot is entered in \<open>grad_ptr_to_indices\<close>, a later entry replacing an earlier one
  under the same address.
\<close>

function mark_requires_grad ::
  "ATenOperator \<Rightarrow> nat \<Rightarrow> nat \<Rightarrow> IValue list \<Rightarrow> (nat \<rightharpoonup> nat)
     \<Rightarrow> error + IValue list \<times> (nat \<rightharpoonup> nat)" where
  "mark_requires_grad aten_op i n arguments' grad_ptr_to_indices =
     (if i < n then
        (case vector_at (is_optional_arguments aten_op) i of
           Inl e \<Rightarrow> Inl e
         | Inr is_optional \<Rightarrow>
            (case vector_at arguments' i of
               Inl e \<Rightarrow> Inl e
             | Inr argument \<Rightarrow>
                (case (if is_optional then toOptionalTensor_value argument else toTensor argument) of
                   Inl e \<Rightarrow> Inl e
                 | Inr tensor \<Rightarrow>
                    (let tensor = tensor\<lparr>requires_grad := True\<rparr>
                     in mark_requires_grad aten_op (i + 1) n
                          (arguments'[i := IV_Tensor tensor])
                          (grad_ptr_to_indices(grad_address tensor \<mapsto> i))))))
      else Inr (arguments', grad_ptr_to_indices))"
  by pat_completeness auto
termination
  by (relation "measure (\<lambda>(aten_op, i, n, arguments', grad_ptr_to_indices). n - i)") auto

declare mark_requires_grad.simps [simp del]

text \<open>
  The loop over the edges of one node in the forward walk: an accumulator whose
  gradient slot is keyed in \<open>grad_ptr_to_indices\<close> is stored at its index unless that
  entry is already set; any other function is pushed on the queue. The name is read
  through the edge's function pointer, null or not.
\<close>

fun collect_edges ::
  "graph \<Rightarrow> (nat \<rightharpoonup> nat) \<Rightarrow> nat option list \<Rightarrow> nat option list \<Rightarrow> nat option list
     \<Rightarrow> error + nat option list \<times> nat option list" where
  "collect_edges g grad_ptr_to_indices [] grad_fn_queue fns = Inr (grad_fn_queue, fns)"
| "collect_edges g grad_ptr_to_indices (edge # edges) grad_fn_queue fns =
     (case edge of
        None \<Rightarrow> Inl null_dereference
      | Some function \<Rightarrow>
          if name (g function) = AccumulateGrad_name then
            (case grad_ptr_to_indices (grad_address (variable (g function))) of
               None \<Rightarrow> collect_edges g grad_ptr_to_indices edges grad_fn_queue fns
             | Some idx \<Rightarrow>
                (case vector_at fns idx of
                   Inl e \<Rightarrow> Inl e
                 | Inr None \<Rightarrow>
                     collect_edges g grad_ptr_to_indices edges grad_fn_queue
                       (fns[idx := Some function])
                 | Inr (Some _) \<Rightarrow>
                     collect_edges g grad_ptr_to_indices edges grad_fn_queue fns))
          else collect_edges g grad_ptr_to_indices edges (grad_fn_queue @ [Some function]) fns)"

text \<open>
  The \<open>while (!grad_fn_queue.empty())\<close> loop. It need not end on a graph with a cycle,
  so it is a partial function: \<open>None\<close> stands for a walk that never returns.
\<close>

partial_function (option) forward_walk ::
  "graph \<Rightarrow> (nat \<rightharpoonup> nat) \<Rightarrow> nat option list \<Rightarrow> nat option list
     \<Rightarrow> (error + nat option list) option" where
  "forward_walk g grad_ptr_to_indices grad_fn_queue fns =
     (case grad_fn_queue of
        [] \<Rightarrow> Some (Inr fns)
      | front # rest \<Rightarrow>
         (case front of
            None \<Rightarrow> Some (Inl null_dereference)
          | Some p \<Rightarrow>
             (case collect_edges g grad_ptr_to_indices (next_edges (g p)) rest fns of
                Inl e \<Rightarrow> Some (Inl e)
              | Inr (grad_fn_queue, fns) \<Rightarrow>
                  forward_walk g grad_ptr_to_indices grad_fn_queue fns)))"

text \<open>The loop asserting that every entry of \<open>input_grad_fns\<close> is set.\<close>

fun check_input_grad_fns :: "nat option list \<Rightarrow> error + unit" where
  "check_input_grad_fns [] = Inr ()"
| "check_input_grad_fns (f # fs) =
     (case f of None \<Rightarrow> Inl (TORCH_INTERNAL_ASSERT 295) | Some _ \<Rightarrow> check_input_grad_fns fs)"

text \<open>
  \<open>ExecuteATenOperator\<close>. \<open>p_context_id\<close> is \<open>None\<close> for a null pointer and holds the
  cell's content otherwise; the result carries the content it has on return. Of
  \<open>requires_grad\<close> only the length is read. The \<open>AutoGradMode\<close> guard switches recording
  on for its scope and restores the mode on every exit. The result is \<open>None\<close> when the
  walk does not return.
\<close>

definition ExecuteATenOperator ::
  "host \<Rightarrow> string \<Rightarrow> string \<Rightarrow> DLManagedTensor option list \<Rightarrow> 64 word list \<Rightarrow> 64 word option
     \<Rightarrow> state \<Rightarrow> ((error + DLManagedTensor list \<times> 64 word option) \<times> state) option" where
  "ExecuteATenOperator h op_name overload_name dlpacks requires_grad' p_context_id s =
     (case GetOperator h op_name overload_name s of
        (Inl e, s) \<Rightarrow> Some (Inl e, s)
      | (Inr aten_op, s) \<Rightarrow>
         if length dlpacks \<noteq> argument_size aten_op then Some (Inl (TORCH_INTERNAL_ASSERT 250), s)
         else
          (case convert_arguments h aten_op dlpacks 0 [] of
             Inl e \<Rightarrow> Some (Inl e, s)
           | Inr arguments' \<Rightarrow>
             (case mark_requires_grad aten_op 0 (length requires_grad') arguments' Map.empty of
                Inl e \<Rightarrow> Some (Inl e, s)
              | Inr (arguments', grad_ptr_to_indices) \<Rightarrow>
                 if \<not> (p_context_id \<noteq> None \<or> requires_grad' = [])
                 then Some (Inl (TORCH_INTERNAL_ASSERT 267), s)
                 else
                  (case p_context_id of
                     None \<Rightarrow>
                      (case ExecuteInternal h (op aten_op) arguments' (return_size aten_op) [] s of
                         (Inl e, s) \<Rightarrow> Some (Inl e, s)
                       | (Inr (first_output, result, g), s) \<Rightarrow> Some (Inr (result, None), s))
                   | Some _ \<Rightarrow>
                      (case ExecuteInternal h (op aten_op) arguments' (return_size aten_op) []
                              (s\<lparr>grad_mode := True\<rparr>) of
                         (Inl e, s') \<Rightarrow> Some (Inl e, s'\<lparr>grad_mode := grad_mode s\<rparr>)
                       | (Inr (first_output, result, g), s') \<Rightarrow>
                          (let s = s'\<lparr>grad_mode := grad_mode s\<rparr> in
                           case toTensor first_output of
                             Inl e \<Rightarrow> Some (Inl e, s)
                           | Inr output \<Rightarrow>
                              (case forward_walk g grad_ptr_to_indices [grad_fn output]
                                      (replicate (length requires_grad') None) of
                                 None \<Rightarrow> None
                               | Some (Inl e) \<Rightarrow> Some (Inl e, s)
                               | Some (Inr fns) \<Rightarrow>
                                  (case check_input_grad_fns fns of
                                     Inl e \<Rightarrow> Some (Inl e, s)
                                   | Inr _ \<Rightarrow>
                                      (let (context_id, s) =
                                             Insert \<lparr>output_grad_fn = grad_fn output,
                                                     input_grad_fns = fns\<rparr> s
                                       in Some (Inr (result, Some context_id), s))))))))))"

section \<open>The backward executor\<close>

text \<open>
  A tensor handle shares its impl with every copy of the handle, and the backward walk
  both copies handles (\<open>mutable_grad() = gradients[i]\<close>: no device copy is made) and
  changes a tensor in place (\<open>mutable_grad() += gradients[i]\<close>). So tensor contents
  are kept in a store: \<open>contents\<close> maps an impl to what the tensor holds, \<open>grads\<close> maps
  the address of a gradient slot to the handle in it (\<open>None\<close> for an undefined tensor).
\<close>

record 'v store =
  contents :: "nat \<Rightarrow> 'v"
  grads :: "nat \<Rightarrow> Tensor option"

text \<open>
  Calling a node (\<open>(*node)({grad})\<close>) is the host's: from the node's address, the
  gradients passed and the store it gives the gradients for the node's edges, and the
  store with whatever tensors it made.
\<close>

type_synonym 'v node_call = "nat \<Rightarrow> Tensor list \<Rightarrow> 'v store \<Rightarrow> Tensor list \<times> 'v store"

text \<open>
  The loop over the edges of one node in the backward walk. \<open>delivered\<close> belongs to no
  source variable: it lists, in order, each accumulator a gradient was handed to and
  what that gradient held when it was handed over.
\<close>

fun deliver_gradients ::
  "graph \<Rightarrow> nat option list \<Rightarrow> Tensor list \<Rightarrow> (nat option \<times> Tensor) list \<Rightarrow> nat set
     \<Rightarrow> ('v::plus) store \<Rightarrow> (nat \<times> 'v) list
     \<Rightarrow> error + (nat option \<times> Tensor) list \<times> nat set \<times> 'v store \<times> (nat \<times> 'v) list" where
  "deliver_gradients g [] gradients execution_queue accu_set st delivered =
     Inr (execution_queue, accu_set, st, delivered)"
| "deliver_gradients g (edge # edges) [] execution_queue accu_set st delivered =
     Inl vector_out_of_range"
| "deliver_gradients g (edge # edges) (gradient # gradients) execution_queue accu_set st delivered =
     (case edge of
        None \<Rightarrow> Inl null_dereference
      | Some function \<Rightarrow>
          if name (g function) = AccumulateGrad_name then
            (let slot = grad_address (variable (g function));
                 delivered = delivered @ [(function, contents st (impl gradient))]
             in if function \<notin> accu_set then
                  deliver_gradients g edges gradients execution_queue (insert function accu_set)
                    (st\<lparr>grads := (grads st)(slot := Some gradient)\<rparr>) delivered
                else
                  (case grads st slot of
                     None \<Rightarrow> Inl undefined_tensor
                   | Some grad \<Rightarrow>
                       deliver_gradients g edges gradients execution_queue accu_set
                         (st\<lparr>contents := (contents st)
                               (impl grad := contents st (impl grad) + contents st (impl gradient))\<rparr>)
                         delivered))
          else deliver_gradients g edges gradients (execution_queue @ [(Some function, gradient)])
                 accu_set st delivered)"

partial_function (option) backward_walk ::
  "graph \<Rightarrow> 'v node_call \<Rightarrow> (nat option \<times> Tensor) list \<Rightarrow> nat set \<Rightarrow> ('v::plus) store
     \<Rightarrow> (nat \<times> 'v) list \<Rightarrow> (error + 'v store \<times> (nat \<times> 'v) list) option" where
  "backward_walk g call execution_queue accu_set st delivered =
     (case execution_queue of
        [] \<Rightarrow> Some (Inr (st, delivered))
      | execution_unit # rest \<Rightarrow>
         (case fst execution_unit of
            None \<Rightarrow> Some (Inl null_dereference)
          | Some p \<Rightarrow>
             (let (gradients, st) = call p [snd execution_unit] st;
                  edges = next_edges (g p)
              in if length gradients \<noteq> length edges then Some (Inl (TORCH_INTERNAL_ASSERT 316))
                 else
                  (case deliver_gradients g edges gradients rest accu_set st delivered of
                     Inl e \<Rightarrow> Some (Inl e)
                   | Inr (execution_queue, accu_set, st, delivered) \<Rightarrow>
                       backward_walk g call execution_queue accu_set st delivered))))"

text \<open>The loop exporting the gradient of every saved input accumulator.\<close>

fun export_input_grads ::
  "host \<Rightarrow> graph \<Rightarrow> 'v store \<Rightarrow> nat option list \<Rightarrow> DLManagedTensor list \<Rightarrow> error + DLManagedTensor list" where
  "export_input_grads h g st [] result = Inr result"
| "export_input_grads h g st (f # fs) result =
     (case f of
        None \<Rightarrow> Inl null_dereference
      | Some a \<Rightarrow>
         (case grads st (grad_address (variable (g a))) of
            None \<Rightarrow> Inl undefined_tensor
          | Some input_grad \<Rightarrow>
              export_input_grads h g st fs
                (result @ [toDLPack h (if is_contiguous input_grad then input_grad
                                        else contiguous input_grad)])))"

text \<open>
  \<open>ExecuteATenOpBackward\<close>, on the graph the forward call left. A call that returns
  gives the exported gradients, the store and the list \<open>delivered\<close>. The result is
  \<open>None\<close> when the walk does not return.
\<close>

definition ExecuteATenOpBackward ::
  "host \<Rightarrow> graph \<Rightarrow> 'v node_call \<Rightarrow> DLManagedTensor \<Rightarrow> 64 word \<Rightarrow> state \<Rightarrow> ('v::plus) store
     \<Rightarrow> ((error + DLManagedTensor list \<times> 'v store \<times> (nat \<times> 'v) list) \<times> state) option" where
  "ExecuteATenOpBackward h g call dlpack context_id s st =
     (case Pop context_id s of
        (Inl e, s) \<Rightarrow> Some (Inl e, s)
      | (Inr autograd_context, s) \<Rightarrow>
         (case backward_walk g call [(output_grad_fn autograd_context, fromDLPack h dlpack)] {} st [] of
            None \<Rightarrow> None
          | Some (Inl e) \<Rightarrow> Some (Inl e, s)
          | Some (Inr (st, delivered)) \<Rightarrow>
             (case export_input_grads h g st (input_grad_fns autograd_context) [] of
                Inl e \<Rightarrow> Some (Inl e, s)
              | Inr result \<Rightarrow> Some (Inr (result, st, delivered), s))))"

section \<open>Well-formed operators and example inputs\<close>

text \<open>
  The four vectors of an \<open>ATenOperator\<close> have one entry per argument. \<open>GetOperator\<close>
  builds them so; the struct itself does not say it.
\<close>

definition well_formed :: "ATenOperator \<Rightarrow> bool" where
  "well_formed aten_op =
     (length (elem_kinds aten_op) = argument_size aten_op \<and>
      length (is_list_arguments aten_op) = argument_size aten_op \<and>
      length (is_optional_arguments aten_op) = argument_size aten_op \<and>
      length (default_values aten_op) = argument_size aten_op)"

text \<open>Concrete inputs, on which the theorems below are run.\<close>

definition example_tensor :: "nat \<Rightarrow> Tensor" where
  "example_tensor a = \<lparr>impl = a, is_contiguous = True, requires_grad = False, grad_fn = None\<rparr>"

text \<open>A one-dimensional tensor of the three 64-bit integers 0, 5, 0.\<close>

definition example_int64s :: "DLManagedTensor" where
  "example_int64s =
     \<lparr>dl_tensor = \<lparr>data = (\<lambda>a. if a = 8 then 5 else 0), ndim = 1,
                   dtype = \<lparr>code = kDLInt, bits = 64\<rparr>,
                   shape = Some (\<lambda>i. 3)\<rparr>\<rparr>"

text \<open>A zero-dimensional tensor holding the 64-bit integer 256.\<close>

definition example_int64 :: "DLManagedTensor" where
  "example_int64 =
     \<lparr>dl_tensor = \<lparr>data = (\<lambda>a. if a = 1 then 1 else 0), ndim = 0,
                   dtype = \<lparr>code = kDLInt, bits = 64\<rparr>,
                   shape = None\<rparr>\<rparr>"

definition example_operation :: "bool \<Rightarrow> IValue list \<Rightarrow> IValue list \<times> graph" where
  "example_operation recording stack =
     ([IV_Tensor (example_tensor 9)],
      (\<lambda>a. \<lparr>name = ''NotImplemented'', next_edges = [], variable = example_tensor 0\<rparr>))"

definition example_aten_op :: ATenOperator where
  "example_aten_op =
     \<lparr>op = \<lparr>schema = \<lparr>arguments = [], returns = []\<rparr>, getOperation = example_operation\<rparr>,
      argument_size = 4,
      elem_kinds = [TensorType, IntType, BoolType, BoolType],
      is_list_arguments = [False, False, True, False],
      is_optional_arguments = [True, False, False, False],
      default_values = [None, None, None, Some (IV_Bool True)],
      return_size = 1\<rparr>"

definition example_host :: host where
  "example_host =
     \<lparr>fromDLPack = (\<lambda>d. example_tensor 1),
      toDLPack = (\<lambda>t. example_int64),
      findOperatorFor = (\<lambda>k. None)\<rparr>"

section \<open>What the operator cache is to derive\<close>

text \<open>
  The metadata the cache is said to derive from a schema, in the words of the claim
  about it: whether the argument's type is wrapped in \<open>Optional\<close>, whether it is
  (under that) wrapped in \<open>List\<close>, and the kind of the element left when those two
  wrappers are taken off. \<open>derived_operator\<close> is the cache entry these give; the
  theorem on \<open>GetOperator\<close> compares the source's loop with it.
\<close>

fun wrapped_in_optional :: "Type \<Rightarrow> bool" where
  "wrapped_in_optional (OptionalT t) = True"
| "wrapped_in_optional t = False"

fun wrapped_in_list :: "Type \<Rightarrow> bool" where
  "wrapped_in_list (OptionalT (ListT t)) = True"
| "wrapped_in_list (ListT t) = True"
| "wrapped_in_list t = False"

fun unwrapped_elem_kind :: "Type \<Rightarrow> TypeKind" where
  "unwrapped_elem_kind (OptionalT (ListT t)) = kind t"
| "unwrapped_elem_kind (OptionalT t) = kind t"
| "unwrapped_elem_kind (ListT t) = kind t"
| "unwrapped_elem_kind t = kind t"

definition derived_operator :: "Operator \<Rightarrow> ATenOperator" where
  "derived_operator found =
     \<lparr>op = found,
      argument_size = length (arguments (schema found)),
      elem_kinds = map (\<lambda>a. unwrapped_elem_kind (arg_type a)) (arguments (schema found)),
      is_list_arguments = map (\<lambda>a. wrapped_in_list (arg_type a)) (arguments (schema found)),
      is_optional_arguments = map (\<lambda>a. wrapped_in_optional (arg_type a)) (arguments (schema found)),
      default_values = map default_value (arguments (schema found)),
      return_size = length (returns (schema found))\<rparr>"

definition example_schema :: FunctionSchema where
  "example_schema =
     \<lparr>arguments =
        [\<lparr>arg_type = TensorT, default_value = None\<rparr>,
         \<lparr>arg_type = OptionalT (ListT IntT), default_value = None\<rparr>,
         \<lparr>arg_type = BoolT, default_value = Some (IV_Bool False)\<rparr>],
      returns = [\<lparr>arg_type = TensorT, default_value = None\<rparr>]\<rparr>"

definition example_operator :: Operator where
  "example_operator = \<lparr>schema = example_schema, getOperation = example_operation\<rparr>"

definition example_registry :: host where
  "example_registry =
     example_host\<lparr>findOperatorFor :=
       (\<lambda>k. if k = (''aten::sum'', ''dim_IntList'') then Some example_operator else None)\<rparr>"


section \<open>Histories of the context cache\<close>

text \<open>
  What a process does to \<open>AutogradContextCache\<close> over its lifetime is a list of calls,
  each an \<open>Insert\<close> or a \<open>Pop\<close>; a \<open>Pop\<close> that fails its assertion throws and
  leaves the cache as it was. \<open>issued\<close> collects the ids the \<open>Insert\<close> calls
  return, in order.
\<close>

datatype cache_call = CallInsert AutogradContext | CallPop "64 word"

fun run_call :: "cache_call \<Rightarrow> state \<Rightarrow> state" where
  "run_call (CallInsert c) s = snd (Insert c s)"
| "run_call (CallPop k) s = snd (Pop k s)"

fun run_calls :: "cache_call list \<Rightarrow> state \<Rightarrow> state" where
  "run_calls [] s = s"
| "run_calls (c # cs) s = run_calls cs (run_call c s)"

fun issued :: "cache_call list \<Rightarrow> state \<Rightarrow> 64 word list" where
  "issued [] s = []"
| "issued (CallInsert c # cs) s = fst (Insert c s) # issued cs (run_call (CallInsert c) s)"
| "issued (CallPop k # cs) s = issued cs (run_call (CallPop k) s)"

fun count_inserts :: "cache_call list \<Rightarrow> nat" where
  "count_inserts [] = 0"
| "count_inserts (CallInsert c # cs) = Suc (count_inserts cs)"
| "count_inserts (CallPop k # cs) = count_inserts cs"


definition example_context :: AutogradContext where
  "example_context = \<lparr>output_grad_fn = Some 0, input_grad_fns = [Some 10]\<rparr>"

definition example_calls :: "cache_call list" where
  "example_calls =
     [CallInsert example_context,
      CallInsert \<lparr>output_grad_fn = Some 1, input_grad_fns = []\<rparr>,
      CallPop 0]"


section \<open>Autograd graphs: edges, reachability and what a walk leaves\<close>

text \<open>
  The edges of a graph, as pairs of a successor and its node; \<open>walk_edges\<close> are those a
  walk follows: the successor is no accumulator, so it is pushed on the queue.
  \<open>queue_order\<close> is the same relation on queue entries.
\<close>

definition graph_edges :: "graph \<Rightarrow> (nat \<times> nat) set" where
  "graph_edges g = {(c, p). Some c \<in> set (next_edges (g p))}"

definition walk_edges :: "graph \<Rightarrow> (nat \<times> nat) set" where
  "walk_edges g = {(c, p). Some c \<in> set (next_edges (g p)) \<and> name (g c) \<noteq> AccumulateGrad_name}"

definition queue_order :: "graph \<Rightarrow> (nat option \<times> nat option) set" where
  "queue_order g = {(Some c, Some p) | c p. (c, p) \<in> walk_edges g}"

text \<open>
  An accumulator \<open>a\<close> is keyed to the index \<open>i\<close> when the address of its variable's
  gradient slot is entered in \<open>grad_ptr_to_indices\<close> under \<open>i\<close>. A node has no null
  edges when neither it nor any node a walk reaches from it has an edge whose function is
  null.
\<close>

definition keyed :: "graph \<Rightarrow> (nat \<rightharpoonup> nat) \<Rightarrow> nat \<Rightarrow> nat \<Rightarrow> bool" where
  "keyed g m a i =
     (name (g a) = AccumulateGrad_name \<and> m (grad_address (variable (g a))) = Some i)"

definition no_null_edges :: "graph \<Rightarrow> nat \<Rightarrow> bool" where
  "no_null_edges g p0 = (\<forall>p. (p, p0) \<in> (walk_edges g)\<^sup>* \<longrightarrow> None \<notin> set (next_edges (g p)))"

text \<open>
  What one pass over the edges of a node does to \<open>input_grad_fns\<close>, and what a whole walk
  from a queue does: the length stays, an entry that is set keeps its value, an entry
  that becomes set is an accumulator keyed to its index, and every keyed accumulator met
  has its index set afterwards.
\<close>

definition fns_step :: "graph \<Rightarrow> (nat \<rightharpoonup> nat) \<Rightarrow> nat option list \<Rightarrow> nat option list \<Rightarrow> nat option list \<Rightarrow> bool" where
  "fns_step g m edges fns fns' =
     (length fns' = length fns
      \<and> (\<forall>i<length fns. (\<forall>a. fns ! i = Some a \<longrightarrow> fns' ! i = Some a)
            \<and> (\<forall>b. fns' ! i = Some b \<longrightarrow> fns ! i = Some b \<or> (Some b \<in> set edges \<and> keyed g m b i)))
      \<and> (\<forall>a i. Some a \<in> set edges \<and> keyed g m a i \<longrightarrow> i < length fns \<and> fns' ! i \<noteq> None))"

definition walk_result :: "graph \<Rightarrow> (nat \<rightharpoonup> nat) \<Rightarrow> nat option list \<Rightarrow> nat option list \<Rightarrow> nat option list \<Rightarrow> bool" where
  "walk_result g m q fns fns' =
     (length fns' = length fns
      \<and> (\<forall>i<length fns. (\<forall>a. fns ! i = Some a \<longrightarrow> fns' ! i = Some a)
            \<and> (\<forall>b. fns' ! i = Some b \<longrightarrow> fns ! i = Some b \<or> keyed g m b i))
      \<and> (\<forall>p p' a i. Some p \<in> set q \<and> (p', p) \<in> (walk_edges g)\<^sup>*
            \<and> Some a \<in> set (next_edges (g p')) \<and> keyed g m a i
            \<longrightarrow> i < length fns \<and> fns' ! i \<noteq> None))"

section \<open>An example operator and its autograd graph\<close>

text \<open>
  The graph autograd records for \<open>(a + b) + 2 * a\<close>: node 5 is the outer addition,
  node 6 the inner one, node 7 the multiplication, nodes 10 and 11 the accumulators of
  \<open>a\<close> (impl 3) and \<open>b\<close> (impl 4). \<open>example_null_graph\<close> is the graph recorded when
  \<open>b\<close> does not require a gradient: the edge to its accumulator has a null function.
\<close>

definition example_graph :: graph where
  "example_graph p =
     (if p = 5 then \<lparr>name = ''AddBackward0'', next_edges = [Some 6, Some 7], variable = example_tensor 0\<rparr>
      else if p = 6 then \<lparr>name = ''AddBackward0'', next_edges = [Some 10, Some 11], variable = example_tensor 0\<rparr>
      else if p = 7 then \<lparr>name = ''MulBackward0'', next_edges = [Some 10], variable = example_tensor 0\<rparr>
      else if p = 10 then \<lparr>name = AccumulateGrad_name, next_edges = [], variable = example_tensor 3\<rparr>
      else if p = 11 then \<lparr>name = AccumulateGrad_name, next_edges = [], variable = example_tensor 4\<rparr>
      else \<lparr>name = [], next_edges = [], variable = example_tensor 0\<rparr>)"

definition example_null_graph :: graph where
  "example_null_graph p =
     (if p = 6 then \<lparr>name = ''AddBackward0'', next_edges = [Some 10, None], variable = example_tensor 0\<rparr>
      else example_graph p)"

text \<open>
  Calling the nodes of the example graph: an addition hands the gradient it is given,
  the same tensor, to both of its edges; the multiplication makes a new tensor (impl
  100) holding twice the gradient. In \<open>example_store\<close> the incoming gradient (impl 50)
  holds 1.
\<close>

definition example_call :: "int node_call" where
  "example_call p gradients st =
     (case gradients of
        [grad] \<Rightarrow>
          if p = 5 \<or> p = 6 then ([grad, grad], st)
          else if p = 7 then
            ([example_tensor 100], st\<lparr>contents := (contents st)(100 := 2 * contents st (impl grad))\<rparr>)
          else ([], st)
      | _ \<Rightarrow> ([], st))"

definition example_store :: "int store" where
  "example_store = \<lparr>contents = (\<lambda>a. if a = 50 then 1 else 0), grads = (\<lambda>a. None)\<rparr>"

text \<open>
  The operator, the host's registry holding it, and a call's inputs. The example host
  makes of a managed tensor the tensor whose impl is the tensor's \<open>ndim\<close>, and exports
  a tensor as \<open>example_dlpack\<close> of its impl.
\<close>

definition example_arguments :: "IValue list" where
  "example_arguments = [IV_Tensor (example_tensor 3), IV_Tensor (example_tensor 4)]"

definition example_affine_schema :: FunctionSchema where
  "example_affine_schema =
     \<lparr>arguments = [\<lparr>arg_type = TensorT, default_value = None\<rparr>,
                   \<lparr>arg_type = TensorT, default_value = None\<rparr>],
      returns = [\<lparr>arg_type = TensorT, default_value = None\<rparr>]\<rparr>"

definition example_dlpack :: "nat \<Rightarrow> DLManagedTensor" where
  "example_dlpack k =
     \<lparr>dl_tensor = \<lparr>data = (\<lambda>a. 0), ndim = word_of_nat k,
                   dtype = \<lparr>code = kDLFloat, bits = 32\<rparr>, shape = None\<rparr>\<rparr>"

definition example_output :: "bool \<Rightarrow> Tensor" where
  "example_output recording =
     \<lparr>impl = 9, is_contiguous = False, requires_grad = recording,
      grad_fn = (if recording then Some 5 else None)\<rparr>"

definition example_affine :: Operator where
  "example_affine =
     \<lparr>schema = example_affine_schema,
      getOperation = (\<lambda>recording stack.
        ([IV_Tensor (example_output recording)],
         (case stack of
            [a, IV_Tensor b] \<Rightarrow> if requires_grad b then example_graph else example_null_graph
          | _ \<Rightarrow> example_null_graph)))\<rparr>"

definition example_torch :: host where
  "example_torch =
     \<lparr>fromDLPack = (\<lambda>d. example_tensor (unat (ndim (dl_tensor d)))),
      toDLPack = (\<lambda>t. example_dlpack (impl t)),
      findOperatorFor = (\<lambda>k. if k = (''example::affine'', []) then Some example_affine else None)\<rparr>"

text \<open>
  A second operator, whose one argument is an optional tensor without a default value,
  and a host whose registry holds it.
\<close>

definition example_optional :: Operator where
  "example_optional =
     \<lparr>schema = \<lparr>arguments = [\<lparr>arg_type = OptionalT TensorT, default_value = None\<rparr>],
                 returns = [\<lparr>arg_type = TensorT, default_value = None\<rparr>]\<rparr>,
      getOperation = (\<lambda>recording stack. ([IV_Tensor (example_output recording)], example_null_graph))\<rparr>"

definition example_optional_torch :: host where
  "example_optional_torch =
     example_torch\<lparr>findOperatorFor :=
       (\<lambda>k. if k = (''example::optional'', []) then Some example_optional else None)\<rparr>"

definition example_dlpacks :: "DLManagedTensor option list" where
  "example_dlpacks = [Some (example_dlpack 3), Some (example_dlpack 4)]"

definition example_marked :: "nat \<Rightarrow> IValue list" where
  "example_marked n =
     [IV_Tensor ((example_tensor 3)\<lparr>requires_grad := True\<rparr>),
      IV_Tensor ((example_tensor 4)\<lparr>requires_grad := (1 < n)\<rparr>)]"

section \<open>Conditions on a call, and the example call's states\<close>


text \<open>
  The gradients handed to one accumulator, in the order of delivery, read off the list
  the backward walk keeps.
\<close>

definition delivered_to :: "nat \<Rightarrow> (nat \<times> 'v) list \<Rightarrow> 'v list" where
  "delivered_to a delivered = map snd (filter (\<lambda>x. fst x = a) delivered)"

text \<open>
  The states of the example: after the operator is cached, after the forward call with
  both inputs requiring a gradient, and the tensor store after the backward call.
\<close>

definition example_cached :: state where
  "example_cached =
     (initial_state False)
       \<lparr>ops := [(''example::affine'', []) \<mapsto> derived_operator example_affine]\<rparr>"

definition example_after :: state where
  "example_after =
     (initial_state False)
       \<lparr>ops := [(''example::affine'', []) \<mapsto> derived_operator example_affine],
        context_id_counter := 1,
        autograd_contexts := [0 \<mapsto> \<lparr>output_grad_fn = Some 5, input_grad_fns = [Some 10, Some 11]\<rparr>],
        executed := [(example_affine, example_marked 2)]\<rparr>"

definition example_final_store :: "int store" where
  "example_final_store =
     \<lparr>contents = (\<lambda>a. if a = 50 then 3 else if a = 100 then 2 else 0),
      grads = (\<lambda>a. if a = 3 \<or> a = 4 then Some (example_tensor 50) else None)\<rparr>"

text \<open>A graph with a cycle: every node is its own successor.\<close>

definition example_cycle :: graph where
  "example_cycle p = \<lparr>name = ''CopySlices'', next_edges = [Some p], variable = example_tensor 0\<rparr>"

section \<open>Theorems\<close>

subsection \<open>Reduction kernels\<close>

lemma ReduceKernel_ctor_flags:
  "calculate_log (ReduceKernel_ctor m) = False"
  "calculate_sqt (ReduceKernel_ctor m) = False"
  "log_sum_exp (ReduceKernel_ctor m) = False"
  "fast_reduction (ReduceKernel_ctor m) = False"
  by (simp_all add: ReduceKernel_ctor_def)

lemma reduce_op_table:
  "miopen_reduce_op (ComputeInternal k) =
     (case k of
        ArgMax \<Rightarrow> MIOPEN_REDUCE_TENSOR_MAX
      | ArgMin \<Rightarrow> MIOPEN_REDUCE_TENSOR_MIN
      | ReduceL1 \<Rightarrow> MIOPEN_REDUCE_TENSOR_NORM1
      | ReduceL2 \<Rightarrow> MIOPEN_REDUCE_TENSOR_NORM2
      | ReduceMax \<Rightarrow> MIOPEN_REDUCE_TENSOR_MAX
      | ReduceMean \<Rightarrow> MIOPEN_REDUCE_TENSOR_AVG
      | ReduceMin \<Rightarrow> MIOPEN_REDUCE_TENSOR_MIN
      | ReduceProd \<Rightarrow> MIOPEN_REDUCE_TENSOR_MUL
      | _ \<Rightarrow> MIOPEN_REDUCE_TENSOR_ADD)"
  by (cases k) simp_all

lemma reduce_indices_table:
  "ReduceTensorIndices (ComputeInternal k) =
     (if k = ArgMax \<or> k = ArgMin then MIOPEN_REDUCE_TENSOR_FLATTENED_INDICES
      else MIOPEN_REDUCE_TENSOR_NO_INDICES)"
  by (cases k) simp_all

lemma reduce_flag_table:
  "calculate_log (construct k) = (k = ReduceLogSum)"
  "calculate_sqt (construct k) = (k = ReduceSumSquare)"
  "log_sum_exp (construct k) = (k = ReduceLogSumExp)"
  "fast_reduction (construct k) = (k = ReduceSum)"
  by (cases k; simp add: ReduceKernel_ctor_def)+

text \<open>
  Claim C3. Every kernel class dispatches the miopen reduce op of its operator:
  ReduceSum, ReduceLogSum, ReduceSumSquare and ReduceLogSumExp all pass
  \<open>MIOPEN_REDUCE_TENSOR_ADD\<close>, ReduceMean AVG, ReduceMax MAX, ReduceMin MIN, ReduceProd
  MUL, ReduceL1 NORM1, ReduceL2 NORM2, ArgMax MAX and ArgMin MIN. Only ArgMax and ArgMin
  use \<open>MIOPEN_REDUCE_TENSOR_FLATTENED_INDICES\<close>, every other class the default
  \<open>MIOPEN_REDUCE_TENSOR_NO_INDICES\<close>. The base constructor clears the four flags, and a
  class has \<open>calculate_log\<close>, \<open>calculate_sqt\<close>, \<open>log_sum_exp\<close> or \<open>fast_reduction\<close>
  set exactly when it is ReduceLogSum, ReduceSumSquare, ReduceLogSumExp or ReduceSum
  respectively, so the four ADD kernels differ in their flags only.
\<close>

theorem reduction_dispatch_table:
  "miopen_reduce_op (ComputeInternal ReduceSum) = MIOPEN_REDUCE_TENSOR_ADD
   \<and> miopen_reduce_op (ComputeInternal ReduceLogSum) = MIOPEN_REDUCE_TENSOR_ADD
   \<and> miopen_reduce_op (ComputeInternal ReduceSumSquare) = MIOPEN_REDUCE_TENSOR_ADD
   \<and> miopen_reduce_op (ComputeInternal ReduceLogSumExp) = MIOPEN_REDUCE_TENSOR_ADD
   \<and> miopen_reduce_op (ComputeInternal ReduceMean) = MIOPEN_REDUCE_TENSOR_AVG
   \<and> miopen_reduce_op (ComputeInternal ReduceMax) = MIOPEN_REDUCE_TENSOR_MAX
   \<and> miopen_reduce_op (ComputeInternal ReduceMin) = MIOPEN_REDUCE_TENSOR_MIN
   \<and> miopen_reduce_op (ComputeInternal ReduceProd) = MIOPEN_REDUCE_TENSOR_MUL
   \<and> miopen_reduce_op (ComputeInternal ReduceL1) = MIOPEN_REDUCE_TENSOR_NORM1
   \<and> miopen_reduce_op (ComputeInternal ReduceL2) = MIOPEN_REDUCE_TENSOR_NORM2
   \<and> ComputeInternal ArgMax =
       \<lparr>ReduceTensorIndices = MIOPEN_REDUCE_TENSOR_FLATTENED_INDICES,
        miopen_reduce_op = MIOPEN_REDUCE_TENSOR_MAX\<rparr>
   \<and> ComputeInternal ArgMin =
       \<lparr>ReduceTensorIndices = MIOPEN_REDUCE_TENSOR_FLATTENED_INDICES,
        miopen_reduce_op = MIOPEN_REDUCE_TENSOR_MIN\<rparr>
   \<and> (ReduceTensorIndices (ComputeInternal k) = MIOPEN_REDUCE_TENSOR_NO_INDICES)
       = (k \<noteq> ArgMax \<and> k \<noteq> ArgMin)
   \<and> calculate_log (ReduceKernel_ctor m) = False
   \<and> calculate_sqt (ReduceKernel_ctor m) = False
   \<and> log_sum_exp (ReduceKernel_ctor m) = False
   \<and> fast_reduction (ReduceKernel_ctor m) = False
   \<and> calculate_log (construct k) = (k = ReduceLogSum)
   \<and> calculate_sqt (construct k) = (k = ReduceSumSquare)
   \<and> log_sum_exp (construct k) = (k = ReduceLogSumExp)
   \<and> fast_reduction (construct k) = (k = ReduceSum)"
  unfolding reduce_flag_table ReduceKernel_ctor_flags reduce_indices_table
  by simp

subsection \<open>Argument conversion\<close>





lemma emplace_loop_eq: "emplace_loop f i len acc = acc @ map f [i..<len]"
proof (induction f i len acc rule: emplace_loop.induct)
  case (1 f i len acc)
  show ?case
  proof (cases "i < len")
    case True
    with 1 have "emplace_loop f (i + 1) len (acc @ [f i]) = (acc @ [f i]) @ map f [i + 1..<len]"
      by blast
    with True show ?thesis
      by (subst emplace_loop.simps) (simp add: upt_conv_Cons del: upt_Suc)
  next
    case False
    then show ?thesis
      by (subst emplace_loop.simps) simp
  qed
qed

lemma Int64ToBoolIValue_list:
  assumes "ndim (dl_tensor dlpack) = 1" and "shape (dl_tensor dlpack) = Some sh"
  shows "Int64ToBoolIValue dlpack True is_optional =
           Inr (IV_BoolList (map (\<lambda>i. load_int64 (data (dl_tensor dlpack)) i \<noteq> 0)
                               [0..<unat (sh 0)]))"
  using assms by (simp add: Int64ToBoolIValue_def emplace_loop_eq int64_to_bool_def Let_def)

lemma Int64ToBoolIValue_scalar:
  assumes "scalar_shape (dl_tensor dlpack) = Inr True"
  shows "Int64ToBoolIValue dlpack False is_optional =
           Inr (IV_Bool (load_int64 (data (dl_tensor dlpack)) 0 \<noteq> 0))"
  using assms by (simp add: Int64ToBoolIValue_def int64_to_bool_def Let_def)


lemma ToIValueArgument_Bool:
  assumes "well_formed aten_op" and "index < argument_size aten_op"
    and "elem_kinds aten_op ! index = BoolType"
  shows "ToIValueArgument h aten_op (Some dl) index =
          (if code (dtype (dl_tensor dl)) = kDLInt \<and> bits (dtype (dl_tensor dl)) = 64
           then Int64ToBoolIValue dl (is_list_arguments aten_op ! index)
                  (is_optional_arguments aten_op ! index)
           else if code (dtype (dl_tensor dl)) = kDLUInt \<and> bits (dtype (dl_tensor dl)) = 8
           then (if is_list_arguments aten_op ! index
                 then ToListIValue load_bool IV_BoolList dl (is_optional_arguments aten_op ! index)
                 else ToIValue load_bool IV_Bool dl (is_optional_arguments aten_op ! index))
           else Inl (TORCH_INTERNAL_ASSERT 105))"
  using assms by (simp add: ToIValueArgument_def well_formed_def vector_at_def)

lemma ToIValueArgument_null:
  assumes "well_formed aten_op" and "index < argument_size aten_op"
  shows "ToIValueArgument h aten_op None index =
          (if is_optional_arguments aten_op ! index then Inr IV_None
           else case default_values aten_op ! index of
                  None \<Rightarrow> Inl (TORCH_INTERNAL_ASSERT 72)
                | Some d \<Rightarrow> Inr d)"
  using assms by (simp add: ToIValueArgument_def well_formed_def vector_at_def split: option.splits)

lemma ToIValueArgument_index:
  assumes "\<not> index < argument_size aten_op"
  shows "ToIValueArgument h aten_op dlpack index = Inl (TORCH_INTERNAL_ASSERT 70)"
  using assms by (simp add: ToIValueArgument_def)

lemma example_int64s_values:
  "map (\<lambda>i. load_int64 (data (dl_tensor example_int64s)) i \<noteq> 0) [0..<unat (3 :: 64 word)]
     = [False, True, False]"
  by (simp add: example_int64s_def load_int64_def upt_conv_Cons word_rcat_def horner_sum_eq_sum)

lemma example_int64_value: "load_int64 (data (dl_tensor example_int64)) 0 \<noteq> 0"
  by (simp add: example_int64_def load_int64_def upt_conv_Cons word_rcat_def horner_sum_eq_sum)

lemma ToIValue_not_bool:
  assumes "\<And>x b. mk x \<noteq> IV_Bool b" "\<And>x bs. mk x \<noteq> IV_BoolList bs"
  shows "ToIValue load mk dl opt \<noteq> Inr (IV_Bool b)" "ToIValue load mk dl opt \<noteq> Inr (IV_BoolList bs)"
  using assms by (auto simp: ToIValue_def Let_def split: sum.splits if_splits)

lemma ToListIValue_not_bool:
  assumes "\<And>x b. mkl x \<noteq> IV_Bool b" "\<And>x bs. mkl x \<noteq> IV_BoolList bs"
  shows "ToListIValue load mkl dl opt \<noteq> Inr (IV_Bool b)" "ToListIValue load mkl dl opt \<noteq> Inr (IV_BoolList bs)"
  using assms by (auto simp: ToListIValue_def Let_def split: option.splits if_splits)

lemma ToIValueArgument_other_kind:
  assumes "well_formed aten_op" and "index < argument_size aten_op"
    and "elem_kinds aten_op ! index \<noteq> BoolType"
  shows "ToIValueArgument h aten_op (Some dl) index \<noteq> Inr (IV_Bool b)"
    and "ToIValueArgument h aten_op (Some dl) index \<noteq> Inr (IV_BoolList bs)"
  using assms
  by (cases "elem_kinds aten_op ! index";
      simp add: ToIValueArgument_def well_formed_def vector_at_def Let_def
        ToIValue_not_bool ToListIValue_not_bool)+

text \<open>
  Claim C8. \<open>Int64ToBoolIValue\<close> turns 64-bit integers into booleans by the test
  against zero. In the list case (one dimension, \<open>shape\<close> not null) the result is the
  boolean list with one entry per element, \<open>shape[0]\<close> of them read as a \<open>size_t\<close>, the
  \<open>i\<close>-th being \<open>data[i] != 0\<close>, in the order of the input. In the scalar case (the
  shape test passes) it is the single boolean \<open>data[0] != 0\<close>. For an argument of
  element kind \<open>Bool\<close>, \<open>ToIValueArgument\<close> applies this conversion when the tensor's
  dtype is the signed 64-bit integer, and otherwise asserts that the dtype is the
  unsigned 8-bit integer before it reads booleans; for an argument of any other kind
  the result is never a boolean or a boolean list.
\<close>

theorem Int64ToBoolIValue_nonzero_test:
  "(ndim (dl_tensor dlpack) = 1 \<and> shape (dl_tensor dlpack) = Some sh \<longrightarrow>
      Int64ToBoolIValue dlpack True is_optional =
        Inr (IV_BoolList (map (\<lambda>i. load_int64 (data (dl_tensor dlpack)) i \<noteq> 0)
                            [0..<unat (sh 0)])))
   \<and> (scalar_shape (dl_tensor dlpack) = Inr True \<longrightarrow>
      Int64ToBoolIValue dlpack False is_optional =
        Inr (IV_Bool (load_int64 (data (dl_tensor dlpack)) 0 \<noteq> 0)))
   \<and> (well_formed aten_op \<and> index < argument_size aten_op \<longrightarrow>
      (if elem_kinds aten_op ! index = BoolType then
         ToIValueArgument h aten_op (Some dlpack) index =
           (if code (dtype (dl_tensor dlpack)) = kDLInt \<and> bits (dtype (dl_tensor dlpack)) = 64
            then Int64ToBoolIValue dlpack (is_list_arguments aten_op ! index)
                   (is_optional_arguments aten_op ! index)
            else if code (dtype (dl_tensor dlpack)) = kDLUInt \<and> bits (dtype (dl_tensor dlpack)) = 8
            then (if is_list_arguments aten_op ! index
                  then ToListIValue load_bool IV_BoolList dlpack (is_optional_arguments aten_op ! index)
                  else ToIValue load_bool IV_Bool dlpack (is_optional_arguments aten_op ! index))
            else Inl (TORCH_INTERNAL_ASSERT 105))
       else (\<forall>b. ToIValueArgument h aten_op (Some dlpack) index \<noteq> Inr (IV_Bool b))
          \<and> (\<forall>bs. ToIValueArgument h aten_op (Some dlpack) index \<noteq> Inr (IV_BoolList bs))))"
  using Int64ToBoolIValue_list [of dlpack sh is_optional]
    Int64ToBoolIValue_scalar [of dlpack is_optional]
    ToIValueArgument_Bool [of aten_op index h dlpack]
    ToIValueArgument_other_kind [of aten_op index h dlpack]
  by simp

lemma example_aten_op_well_formed: "well_formed example_aten_op"
  by (simp add: well_formed_def example_aten_op_def)

text \<open>
  The theorem at the tensor of 0, 5, 0 (list case), at the scalar 256, and at the third
  argument of the example operator, a list of \<open>Bool\<close>.
\<close>

theorem Int64ToBoolIValue_nonzero_test_witness:
  "Int64ToBoolIValue example_int64s True False = Inr (IV_BoolList [False, True, False])
   \<and> Int64ToBoolIValue example_int64 False False = Inr (IV_Bool True)
   \<and> ToIValueArgument example_host example_aten_op (Some example_int64s) 2
       = Inr (IV_BoolList [False, True, False])
   \<and> ToIValueArgument example_host example_aten_op (Some example_int64s) 1
       = Inl (TORCH_INTERNAL_ASSERT 24)"
proof -
  have sh: "ndim (dl_tensor example_int64s) = 1 \<and> shape (dl_tensor example_int64s) = Some (\<lambda>i. 3)"
    by (simp add: example_int64s_def)
  have sc: "scalar_shape (dl_tensor example_int64) = Inr True"
    by (simp add: example_int64_def scalar_shape_def)
  have ix: "well_formed example_aten_op \<and> 2 < argument_size example_aten_op"
    by (simp add: example_aten_op_well_formed) (simp add: example_aten_op_def)
  note inst = Int64ToBoolIValue_nonzero_test
    [where dlpack = example_int64s and sh = "\<lambda>i. 3" and is_optional = False
       and aten_op = example_aten_op and index = 2 and h = example_host]
  have a: "Int64ToBoolIValue example_int64s True False = Inr (IV_BoolList [False, True, False])"
    using inst sh example_int64s_values by simp
  have b: "Int64ToBoolIValue example_int64 False False = Inr (IV_Bool True)"
    using Int64ToBoolIValue_nonzero_test [where dlpack = example_int64 and is_optional = False]
      sc example_int64_value
    by simp
  have k: "elem_kinds example_aten_op ! 2 = BoolType" "is_list_arguments example_aten_op ! 2"
    "\<not> is_optional_arguments example_aten_op ! 2"
    "code (dtype (dl_tensor example_int64s)) = kDLInt" "bits (dtype (dl_tensor example_int64s)) = 64"
    by (simp_all add: example_aten_op_def example_int64s_def)
  have c: "ToIValueArgument example_host example_aten_op (Some example_int64s) 2
       = Inr (IV_BoolList [False, True, False])"
    using inst ix a k by simp
  have d: "ToIValueArgument example_host example_aten_op (Some example_int64s) 1
       = Inl (TORCH_INTERNAL_ASSERT 24)"
    by (simp add: ToIValueArgument_def example_aten_op_def vector_at_def example_int64s_def
        ToIValue_def scalar_shape_def)
  from a b c d show ?thesis by simp
qed

text \<open>
  Claim C7. \<open>ToIValueArgument\<close> with a null \<open>dlpack\<close> returns \<open>IValue(nullopt)\<close> when
  the argument at the index is optional, and the default value of the schema when it
  is not optional and has one; the assertion of line 72 fails when the \<open>dlpack\<close> is
  null, the argument is not optional and there is no default value, and the assertion
  of line 70 fails, whatever the \<open>dlpack\<close>, when the index is not below
  \<open>argument_size\<close>.
\<close>

theorem ToIValueArgument_null_dlpack:
  assumes "well_formed aten_op"
  shows "(index < argument_size aten_op \<and> is_optional_arguments aten_op ! index \<longrightarrow>
            ToIValueArgument h aten_op None index = Inr (IValue_optional None))
       \<and> (index < argument_size aten_op \<and> \<not> is_optional_arguments aten_op ! index
            \<and> default_values aten_op ! index = Some d \<longrightarrow>
            ToIValueArgument h aten_op None index = Inr d)
       \<and> (index < argument_size aten_op \<and> \<not> is_optional_arguments aten_op ! index
            \<and> default_values aten_op ! index = None \<longrightarrow>
            ToIValueArgument h aten_op None index = Inl (TORCH_INTERNAL_ASSERT 72))
       \<and> (\<not> index < argument_size aten_op \<longrightarrow>
            ToIValueArgument h aten_op dlpack index = Inl (TORCH_INTERNAL_ASSERT 70))"
  using ToIValueArgument_null [OF assms, of index h] ToIValueArgument_index [of index aten_op h dlpack]
  by simp

text \<open>The theorem at the four arguments of the example operator and one index past them.\<close>

theorem ToIValueArgument_null_dlpack_witness:
  "well_formed example_aten_op
   \<and> ToIValueArgument example_host example_aten_op None 0 = Inr IV_None
   \<and> ToIValueArgument example_host example_aten_op None 3 = Inr (IV_Bool True)
   \<and> ToIValueArgument example_host example_aten_op None 1 = Inl (TORCH_INTERNAL_ASSERT 72)
   \<and> ToIValueArgument example_host example_aten_op (Some example_int64) 4
       = Inl (TORCH_INTERNAL_ASSERT 70)"
proof -
  note wf = example_aten_op_well_formed
  have a: "ToIValueArgument example_host example_aten_op None 0 = Inr IV_None"
    using ToIValueArgument_null_dlpack [OF wf, where index = 0 and h = example_host]
    by (simp add: example_aten_op_def)
  have b: "ToIValueArgument example_host example_aten_op None 3 = Inr (IV_Bool True)"
    using ToIValueArgument_null_dlpack [OF wf, where index = 3 and h = example_host and d = "IV_Bool True"]
    by (simp add: example_aten_op_def)
  have c: "ToIValueArgument example_host example_aten_op None 1 = Inl (TORCH_INTERNAL_ASSERT 72)"
    using ToIValueArgument_null_dlpack [OF wf, where index = 1 and h = example_host]
    by (simp add: example_aten_op_def)
  have d: "ToIValueArgument example_host example_aten_op (Some example_int64) 4
       = Inl (TORCH_INTERNAL_ASSERT 70)"
    using ToIValueArgument_null_dlpack [OF wf, where index = 4 and h = example_host and dlpack = "Some example_int64"]
    by (simp add: example_aten_op_def)
  from wf a b c d show ?thesis by simp
qed


subsection \<open>The operator cache\<close>

lemma kind_OptionalType: "(kind t = OptionalType) = wrapped_in_optional t"
  by (cases t) simp_all

lemma kind_ListType: "(kind t = ListType) = (\<exists>u. t = ListT u)"
  by (cases t) simp_all

lemma argument_metadata_eq:
  "argument_metadata a =
     (if unwrapped_elem_kind (arg_type a) = TensorType \<and> wrapped_in_list (arg_type a)
      then Inl (TORCH_INTERNAL_ASSERT 156)
      else Inr (unwrapped_elem_kind (arg_type a), wrapped_in_list (arg_type a),
                wrapped_in_optional (arg_type a), default_value a))"
proof (cases "arg_type a")
  case (OptionalT t)
  then show ?thesis by (cases t) (simp_all add: argument_metadata_def)
qed (simp_all add: argument_metadata_def)

lemma add_arguments_Inr:
  "add_arguments args aten_op = Inr r \<Longrightarrow>
     r = aten_op\<lparr>elem_kinds := elem_kinds aten_op @ map (\<lambda>a. unwrapped_elem_kind (arg_type a)) args,
                 is_list_arguments := is_list_arguments aten_op @ map (\<lambda>a. wrapped_in_list (arg_type a)) args,
                 is_optional_arguments := is_optional_arguments aten_op @ map (\<lambda>a. wrapped_in_optional (arg_type a)) args,
                 default_values := default_values aten_op @ map default_value args\<rparr>"
proof (induction args arbitrary: aten_op)
  case Nil
  then show ?case by simp
next
  case (Cons a args)
  let ?next = "aten_op\<lparr>elem_kinds := elem_kinds aten_op @ [unwrapped_elem_kind (arg_type a)],
                 is_list_arguments := is_list_arguments aten_op @ [wrapped_in_list (arg_type a)],
                 is_optional_arguments := is_optional_arguments aten_op @ [wrapped_in_optional (arg_type a)],
                 default_values := default_values aten_op @ [default_value a]\<rparr>"
  from Cons.prems have "add_arguments args ?next = Inr r"
    by (simp add: argument_metadata_eq split: if_splits)
  from Cons.IH [OF this] show ?case by simp
qed

lemma GetOperator_hit:
  "ops s (op_name, overload_name) = Some a \<Longrightarrow> GetOperator h op_name overload_name s = (Inr a, s)"
  by (simp add: GetOperator_def)

lemma GetOperator_miss:
  assumes "ops s (op_name, overload_name) = None"
    and "GetOperator h op_name overload_name s = (Inr a, s')"
  shows "\<exists>found. findOperatorFor h (op_name, overload_name) = Some found
           \<and> a = derived_operator found
           \<and> s' = s\<lparr>ops := (ops s)((op_name, overload_name) \<mapsto> a)\<rparr>"
  using assms
  by (auto simp: GetOperator_def Let_def emplace_def derived_operator_def domIff
      split: option.splits sum.splits dest!: add_arguments_Inr)

lemma GetOperator_failure:
  "GetOperator h op_name overload_name s = (Inl e, s') \<Longrightarrow> s' = s"
  by (auto simp: GetOperator_def Let_def emplace_def domIff split: option.splits sum.splits)

lemma GetOperator_stored:
  assumes "GetOperator h op_name overload_name s = (Inr a, s')"
  shows "ops s' (op_name, overload_name) = Some a"
proof (cases "ops s (op_name, overload_name)")
  case None
  from GetOperator_miss [OF None assms] show ?thesis by auto
next
  case (Some b)
  with assms show ?thesis by (simp add: GetOperator_hit)
qed

lemma GetOperator_map_le: "ops s \<subseteq>\<^sub>m ops (snd (GetOperator h op_name overload_name s))"
proof (cases "GetOperator h op_name overload_name s")
  case (Pair r s')
  show ?thesis
  proof (cases r)
    case (Inl e)
    with Pair GetOperator_failure have "s' = s" by blast
    with Pair show ?thesis by simp
  next
    case (Inr a)
    show ?thesis
    proof (cases "ops s (op_name, overload_name)")
      case None
      from GetOperator_miss [OF None Pair [unfolded Inr]] None Pair
      show ?thesis by (auto simp: map_le_def)
    next
      case (Some b)
      then show ?thesis by (simp add: GetOperator_hit)
    qed
  qed
qed

lemma GetOperator_again:
  assumes "GetOperator h op_name overload_name s = (Inr a, s')" and "ops s' \<subseteq>\<^sub>m ops t"
  shows "GetOperator h' op_name overload_name t = (Inr a, t)"
proof -
  have "ops s' (op_name, overload_name) = Some a"
    using assms(1) by (rule GetOperator_stored)
  with assms(2) have "ops t (op_name, overload_name) = Some a"
    by (auto simp: map_le_def dom_def)
  then show ?thesis by (rule GetOperator_hit)
qed



text \<open>
  Claim C6. For every pair of operator name and overload name, \<open>GetOperator\<close> resolves
  the operator in the registry and derives the metadata of its arguments (element kind
  with the \<open>Optional\<close> and \<open>List\<close> wrappers taken off, the is-list and is-optional
  flags, the default values, the number of returns) only when the pair is not cached
  yet: a successful call leaves the entry stored under the pair; when the pair was
  absent the entry is the one derived from the operator the registry holds, and the
  cache is the old one with that entry added; when it was present the entry is
  returned and nothing changes. Every later call for the pair, on any cache that has
  grown from there and whatever the registry then holds, returns the identical entry
  and leaves the state alone. A failing call changes nothing, and no call removes or
  replaces an entry: the old cache is contained in the new one.
\<close>

theorem GetOperator_caches:
  "ops s \<subseteq>\<^sub>m ops (snd (GetOperator h op_name overload_name s))
   \<and> (GetOperator h op_name overload_name s = (Inr aten_op, s') \<longrightarrow>
        ops s' (op_name, overload_name) = Some aten_op
      \<and> (ops s (op_name, overload_name) = None \<longrightarrow>
           (\<exists>found. findOperatorFor h (op_name, overload_name) = Some found
                     \<and> aten_op = derived_operator found)
           \<and> s' = s\<lparr>ops := (ops s)((op_name, overload_name) \<mapsto> aten_op)\<rparr>)
      \<and> (\<forall>cached. ops s (op_name, overload_name) = Some cached \<longrightarrow> aten_op = cached \<and> s' = s)
      \<and> (\<forall>h' t. ops s' \<subseteq>\<^sub>m ops t \<longrightarrow> GetOperator h' op_name overload_name t = (Inr aten_op, t)))
   \<and> (GetOperator h op_name overload_name s = (Inl e, s') \<longrightarrow> s' = s)"
proof (intro conjI impI allI)
  show "ops s \<subseteq>\<^sub>m ops (snd (GetOperator h op_name overload_name s))"
    by (rule GetOperator_map_le)
next
  assume "GetOperator h op_name overload_name s = (Inr aten_op, s')"
  then show "ops s' (op_name, overload_name) = Some aten_op"
    by (rule GetOperator_stored)
next
  assume "GetOperator h op_name overload_name s = (Inr aten_op, s')"
    and "ops s (op_name, overload_name) = None"
  from GetOperator_miss [OF this(2) this(1)]
  show "\<exists>found. findOperatorFor h (op_name, overload_name) = Some found
                     \<and> aten_op = derived_operator found"
    and "s' = s\<lparr>ops := (ops s)((op_name, overload_name) \<mapsto> aten_op)\<rparr>"
    by blast+
next
  fix cached
  assume "GetOperator h op_name overload_name s = (Inr aten_op, s')"
    and "ops s (op_name, overload_name) = Some cached"
  then show "aten_op = cached" and "s' = s"
    by (simp_all add: GetOperator_hit)
next
  fix h' and t :: state
  assume "GetOperator h op_name overload_name s = (Inr aten_op, s')" and "ops s' \<subseteq>\<^sub>m ops t"
  then show "GetOperator h' op_name overload_name t = (Inr aten_op, t)"
    by (rule GetOperator_again)
next
  assume "GetOperator h op_name overload_name s = (Inl e, s')"
  then show "s' = s" by (rule GetOperator_failure)
qed

lemma example_GetOperator:
  "GetOperator example_registry ''aten::sum'' ''dim_IntList'' (initial_state False) =
     (Inr (derived_operator example_operator),
      (initial_state False)\<lparr>ops := [(''aten::sum'', ''dim_IntList'') \<mapsto> derived_operator example_operator]\<rparr>)"
  by (simp add: GetOperator_def example_registry_def example_host_def initial_state_def
      example_operator_def example_schema_def argument_metadata_def emplace_def
      derived_operator_def Let_def)

text \<open>
  The theorem on a registry with one operator of three arguments (a tensor, an optional
  list of integers, a boolean with a default): the first call derives the entry, the
  second, with an empty registry, returns it from the cache.
\<close>

theorem GetOperator_caches_witness:
  "GetOperator example_registry ''aten::sum'' ''dim_IntList'' (initial_state False) =
     (Inr (derived_operator example_operator),
      (initial_state False)\<lparr>ops := [(''aten::sum'', ''dim_IntList'') \<mapsto> derived_operator example_operator]\<rparr>)
   \<and> elem_kinds (derived_operator example_operator) = [TensorType, IntType, BoolType]
   \<and> is_list_arguments (derived_operator example_operator) = [False, True, False]
   \<and> is_optional_arguments (derived_operator example_operator) = [False, True, False]
   \<and> default_values (derived_operator example_operator) = [None, None, Some (IV_Bool False)]
   \<and> return_size (derived_operator example_operator) = 1
   \<and> GetOperator example_host ''aten::sum'' ''dim_IntList''
        ((initial_state False)\<lparr>ops := [(''aten::sum'', ''dim_IntList'') \<mapsto> derived_operator example_operator]\<rparr>)
      = (Inr (derived_operator example_operator),
         (initial_state False)\<lparr>ops := [(''aten::sum'', ''dim_IntList'') \<mapsto> derived_operator example_operator]\<rparr>)
   \<and> GetOperator example_host ''aten::sum'' ''dim_IntList'' (initial_state False)
      = (Inl (TORCH_INTERNAL_ASSERT 138), initial_state False)"
proof -
  let ?s' = "(initial_state False)\<lparr>ops := [(''aten::sum'', ''dim_IntList'') \<mapsto> derived_operator example_operator]\<rparr>"
  note first = example_GetOperator
  have again: "GetOperator example_host ''aten::sum'' ''dim_IntList'' ?s'
      = (Inr (derived_operator example_operator), ?s')"
    using GetOperator_caches [where h = example_registry and op_name = "''aten::sum''"
        and overload_name = "''dim_IntList''" and s = "initial_state False"
        and aten_op = "derived_operator example_operator" and s' = ?s'] first
    by (simp add: map_le_def)
  have failed: "GetOperator example_host ''aten::sum'' ''dim_IntList'' (initial_state False)
      = (Inl (TORCH_INTERNAL_ASSERT 138), initial_state False)"
    by (simp add: GetOperator_def example_host_def initial_state_def)
  have meta: "elem_kinds (derived_operator example_operator) = [TensorType, IntType, BoolType]"
    "is_list_arguments (derived_operator example_operator) = [False, True, False]"
    "is_optional_arguments (derived_operator example_operator) = [False, True, False]"
    "default_values (derived_operator example_operator) = [None, None, Some (IV_Bool False)]"
    "return_size (derived_operator example_operator) = 1"
    by (simp_all add: derived_operator_def example_operator_def example_schema_def)
  from first again failed meta show ?thesis by simp
qed

subsection \<open>The context cache\<close>

lemma Insert_eq:
  "Insert c s =
     (context_id_counter s,
      s\<lparr>context_id_counter := context_id_counter s + 1,
        autograd_contexts := emplace (autograd_contexts s) (context_id_counter s) c\<rparr>)"
  by (simp add: Insert_def CreateId_def)

lemma Pop_present:
  "autograd_contexts s k = Some c \<Longrightarrow>
     Pop k s = (Inr c, s\<lparr>autograd_contexts := (autograd_contexts s)(k := None)\<rparr>)"
  by (simp add: Pop_def)

lemma Pop_absent:
  "autograd_contexts s k = None \<Longrightarrow> Pop k s = (Inl (TORCH_INTERNAL_ASSERT 200), s)"
  by (simp add: Pop_def)

lemma Pop_twice:
  "autograd_contexts s k = Some c \<Longrightarrow>
     fst (Pop k (snd (Pop k s))) = Inl (TORCH_INTERNAL_ASSERT 200)"
  by (simp add: Pop_def)

lemma run_call_counter:
  "context_id_counter (run_call c s) =
     context_id_counter s + (case c of CallInsert _ \<Rightarrow> 1 | CallPop _ \<Rightarrow> 0)"
  by (cases c) (auto simp: Insert_eq Pop_def split: option.splits)

lemma run_calls_counter:
  "context_id_counter (run_calls cs s) = context_id_counter s + word_of_nat (count_inserts cs)"
proof (induction cs arbitrary: s)
  case Nil
  then show ?case by simp
next
  case (Cons c cs)
  then show ?case by (cases c) (simp_all add: run_call_counter add.assoc del: run_call.simps)
qed

lemma issued_eq:
  "issued cs s = map (\<lambda>k. context_id_counter s + word_of_nat k) [0..<count_inserts cs]"
proof (induction cs arbitrary: s)
  case Nil
  then show ?case by simp
next
  case (Cons c cs)
  show ?case
  proof (cases c)
    case (CallInsert x)
    have "[0..<Suc (count_inserts cs)] = 0 # map Suc [0..<count_inserts cs]"
      by (simp add: upt_conv_Cons map_Suc_upt del: upt_Suc)
    then show ?thesis
      using Cons [of "run_call c s"] CallInsert
      by (simp add: run_call_counter Insert_eq comp_def add.assoc del: upt_Suc run_call.simps)
  next
    case (CallPop k)
    then show ?thesis
      using Cons [of "run_call c s"] by (simp add: run_call_counter del: run_call.simps)
  qed
qed

lemma run_call_dom:
  "dom (autograd_contexts (run_call c s)) \<subseteq>
     dom (autograd_contexts s) \<union> (case c of CallInsert _ \<Rightarrow> {context_id_counter s} | CallPop _ \<Rightarrow> {})"
  by (cases c) (auto simp: Insert_eq Pop_def emplace_def split: option.splits if_splits)

lemma run_calls_dom:
  "dom (autograd_contexts (run_calls cs s)) \<subseteq>
     dom (autograd_contexts s) \<union> (\<lambda>k. context_id_counter s + word_of_nat k) ` {0..<count_inserts cs}"
proof (induction cs arbitrary: s)
  case Nil
  then show ?case by simp
next
  case (Cons c cs)
  show ?case
  proof (cases c)
    case (CallInsert x)
    have "dom (autograd_contexts (run_calls cs (run_call c s))) \<subseteq>
       dom (autograd_contexts (run_call c s)) \<union>
       (\<lambda>k. context_id_counter (run_call c s) + word_of_nat k) ` {0..<count_inserts cs}"
      by (rule Cons)
    also have "\<dots> \<subseteq> (dom (autograd_contexts s) \<union> {context_id_counter s}) \<union>
       (\<lambda>k. context_id_counter s + word_of_nat (Suc k)) ` {0..<count_inserts cs}"
      using run_call_dom [of c s] CallInsert
      by (auto simp: run_call_counter add.assoc simp del: run_call.simps)
    also have "\<dots> \<subseteq> dom (autograd_contexts s) \<union>
       (\<lambda>k. context_id_counter s + word_of_nat k) ` {0..<Suc (count_inserts cs)}"
    proof -
      have "context_id_counter s = context_id_counter s + word_of_nat 0" by simp
      then have "context_id_counter s \<in> (\<lambda>k. context_id_counter s + word_of_nat k) ` {0..<Suc (count_inserts cs)}"
        by (metis (mono_tags, lifting) atLeastLessThan_iff image_eqI le0 zero_less_Suc)
      moreover have "(\<lambda>k. context_id_counter s + word_of_nat (Suc k)) ` {0..<count_inserts cs}
         \<subseteq> (\<lambda>k. context_id_counter s + word_of_nat k) ` {0..<Suc (count_inserts cs)}"
        by (auto simp del: of_nat_Suc)
      ultimately show ?thesis by blast
    qed
    finally show ?thesis using CallInsert by simp
  next
    case (CallPop k)
    have "dom (autograd_contexts (run_calls cs (run_call c s))) \<subseteq>
       dom (autograd_contexts (run_call c s)) \<union>
       (\<lambda>k. context_id_counter (run_call c s) + word_of_nat k) ` {0..<count_inserts cs}"
      by (rule Cons)
    also have "\<dots> \<subseteq> dom (autograd_contexts s) \<union>
       (\<lambda>k. context_id_counter s + word_of_nat k) ` {0..<count_inserts cs}"
      using run_call_dom [of c s] CallPop
      by (auto simp: run_call_counter simp del: run_call.simps)
    finally show ?thesis using CallPop by simp
  qed
qed

lemma word_of_nat_inj64:
  "i < 2 ^ 64 \<Longrightarrow> j < 2 ^ 64 \<Longrightarrow> (word_of_nat i :: 64 word) = word_of_nat j \<Longrightarrow> i = j"
  by (simp add: word_of_nat_eq_iff take_bit_nat_eq_self)

lemma sint_word_of_nat64:
  "k < 2 ^ 63 \<Longrightarrow> sint (word_of_nat k :: 64 word) = int k"
  by (simp add: signed_of_nat signed_take_bit_int_eq_self)


lemma count_inserts_replicate: "count_inserts (replicate n (CallInsert c)) = n"
  by (induction n) simp_all

lemma issued_initial:
  "issued cs (initial_state mode) = map word_of_nat [0..<count_inserts cs]"
  by (simp add: issued_eq initial_state_def)

lemma issued_increasing:
  assumes "count_inserts cs \<le> 2 ^ 63"
  shows "sorted_wrt (\<lambda>a b. a <s b) (issued cs (initial_state mode))"
proof -
  have "sint (word_of_nat i :: 64 word) < sint (word_of_nat j :: 64 word)"
    if "i < j" "j < count_inserts cs" for i j
    using that assms by (simp add: sint_word_of_nat64)
  then show ?thesis
    by (simp add: issued_initial sorted_wrt_iff_nth_less word_sless_alt)
qed

lemma issued_distinct:
  assumes "count_inserts cs \<le> 2 ^ 64"
  shows "distinct (issued cs (initial_state mode))"
proof -
  have "inj_on (word_of_nat :: nat \<Rightarrow> 64 word) (set [0..<count_inserts cs])"
    using assms by (auto intro!: inj_onI word_of_nat_inj64)
  then show ?thesis
    by (simp add: issued_initial distinct_map)
qed

lemma fresh_id:
  assumes "count_inserts cs < 2 ^ 64"
  shows "autograd_contexts (run_calls cs (initial_state mode)) (word_of_nat (count_inserts cs)) = None"
proof -
  have "(word_of_nat (count_inserts cs) :: 64 word) \<notin> word_of_nat ` {0..<count_inserts cs}"
  proof
    assume "(word_of_nat (count_inserts cs) :: 64 word) \<in> word_of_nat ` {0..<count_inserts cs}"
    then obtain x where x: "x < count_inserts cs"
      and eq: "(word_of_nat (count_inserts cs) :: 64 word) = word_of_nat x"
      by auto
    from x assms have "x < 2 ^ 64" by simp
    from word_of_nat_inj64 [OF assms this eq] x show False by simp
  qed
  moreover have "dom (autograd_contexts (run_calls cs (initial_state mode)))
      \<subseteq> word_of_nat ` {0..<count_inserts cs}"
    using run_calls_dom [of cs "initial_state mode"] by (simp add: initial_state_def)
  ultimately show ?thesis by blast
qed

lemma Insert_fresh:
  assumes "count_inserts cs < 2 ^ 64" and "s = run_calls cs (initial_state mode)"
  shows "Insert c s =
     (word_of_nat (count_inserts cs),
      s\<lparr>context_id_counter := word_of_nat (count_inserts cs) + 1,
        autograd_contexts := (autograd_contexts s)(word_of_nat (count_inserts cs) \<mapsto> c)\<rparr>)"
  using fresh_id [OF assms(1), of mode] assms(2) run_calls_counter [of cs "initial_state mode"]
  by (simp add: Insert_eq emplace_def domIff initial_state_def)

lemma Insert_then_Pop:
  assumes "count_inserts cs < 2 ^ 64" and "s = run_calls cs (initial_state mode)"
  shows "Pop (word_of_nat (count_inserts cs)) (snd (Insert c s)) =
     (Inr c, (snd (Insert c s))\<lparr>autograd_contexts := autograd_contexts s\<rparr>)"
proof -
  have "autograd_contexts s (word_of_nat (count_inserts cs)) = None"
    using fresh_id [OF assms(1), of mode] assms(2) by simp
  then have "(autograd_contexts s)(word_of_nat (count_inserts cs) := None) = autograd_contexts s"
    by (simp add: fun_upd_idem)
  then show ?thesis
    by (simp add: Insert_fresh [OF assms] Pop_def)
qed

lemma ExecuteATenOpBackward_absent:
  "autograd_contexts t k = None \<Longrightarrow>
     ExecuteATenOpBackward h g call dlpack k t st = Some (Inl (TORCH_INTERNAL_ASSERT 200), t)"
  by (simp add: ExecuteATenOpBackward_def Pop_absent)

text \<open>
  Claim C5, as amended. The id of an \<open>Insert\<close> is drawn from a 64-bit counter that
  starts at 0 and goes up by one with every \<open>Insert\<close>, wrapping around: in any history
  of the cache the ids issued are 0, 1, 2, ... taken modulo \<open>2 ^ 64\<close>; they increase
  strictly (as signed 64-bit integers) as long as no more than \<open>2 ^ 63\<close> have been
  issued, and are pairwise distinct as long as no more than \<open>2 ^ 64\<close> have been. After
  fewer than \<open>2 ^ 64\<close> Inserts the next \<open>Insert\<close> stores the given context under
  its id, and \<open>Pop\<close> of that id returns exactly that context and erases it. In any
  state, \<open>Pop\<close> of an id that is present returns the context stored under it and
  erases the entry, so that a second \<open>Pop\<close> of the id fails the assertion; \<open>Pop\<close> of
  an id that is absent fails the assertion and leaves the state alone, and so does a
  backward call with that id.
\<close>

theorem AutogradContextCache_wrapping_ids:
  "(s = run_calls calls (initial_state mode) \<and> n = count_inserts calls \<longrightarrow>
      issued calls (initial_state mode) = map word_of_nat [0..<n]
    \<and> (n \<le> 2 ^ 63 \<longrightarrow> sorted_wrt (\<lambda>a b. a <s b) (issued calls (initial_state mode)))
    \<and> (n \<le> 2 ^ 64 \<longrightarrow> distinct (issued calls (initial_state mode)))
    \<and> (n < 2 ^ 64 \<longrightarrow>
          Insert ctx s =
            (word_of_nat n,
             s\<lparr>context_id_counter := word_of_nat n + 1,
               autograd_contexts := (autograd_contexts s)(word_of_nat n \<mapsto> ctx)\<rparr>)
        \<and> Pop (word_of_nat n) (snd (Insert ctx s)) =
            (Inr ctx, (snd (Insert ctx s))\<lparr>autograd_contexts := autograd_contexts s\<rparr>)))
   \<and> (autograd_contexts t k = Some c \<longrightarrow>
        Pop k t = (Inr c, t\<lparr>autograd_contexts := (autograd_contexts t)(k := None)\<rparr>)
      \<and> fst (Pop k (snd (Pop k t))) = Inl (TORCH_INTERNAL_ASSERT 200))
   \<and> (autograd_contexts t k = None \<longrightarrow>
        Pop k t = (Inl (TORCH_INTERNAL_ASSERT 200), t)
      \<and> ExecuteATenOpBackward h g call dlpack k t st = Some (Inl (TORCH_INTERNAL_ASSERT 200), t))"
  using issued_initial [of calls mode] issued_increasing [of calls mode]
    issued_distinct [of calls mode] Insert_fresh [of calls s mode ctx]
    Insert_then_Pop [of calls s mode ctx] Pop_present [of t k c] Pop_twice [of t k c]
    Pop_absent [of t k] ExecuteATenOpBackward_absent [of t k h g call dlpack st]
  by blast

text \<open>
  Claim C5, as stated, says that the counter strictly increases and that no id is ever
  issued twice. In the history of \<open>2 ^ 64 + 1\<close> Inserts the last id is the first one
  again, and of \<open>2 ^ 63 + 1\<close> Inserts the last id is below the one before it.
\<close>

theorem AutogradContextCache_id_issued_twice:
  "\<not> distinct (issued (replicate (2 ^ 64 + 1) (CallInsert example_context)) (initial_state False))
   \<and> issued (replicate (2 ^ 63 + 1) (CallInsert example_context)) (initial_state False) ! (2 ^ 63)
      <s issued (replicate (2 ^ 63 + 1) (CallInsert example_context)) (initial_state False) ! (2 ^ 63 - 1)"
proof
  let ?xs = "issued (replicate (2 ^ 64 + 1) (CallInsert example_context)) (initial_state False)"
  have len: "length ?xs = 2 ^ 64 + 1"
    by (simp add: issued_initial count_inserts_replicate del: upt_Suc)
  have "?xs ! 0 = 0"
    by (simp add: issued_initial count_inserts_replicate del: upt_Suc)
  moreover have "?xs ! (2 ^ 64) = word_of_nat (2 ^ 64)"
    unfolding issued_initial count_inserts_replicate
    by (subst nth_map) (simp_all del: upt_Suc of_nat_power of_nat_numeral)
  moreover have "(word_of_nat (2 ^ 64) :: 64 word) = 0"
    by simp
  ultimately have "?xs ! 0 = ?xs ! (2 ^ 64)" by simp
  moreover have "0 < length ?xs" "2 ^ 64 < length ?xs"
    using len by simp_all
  ultimately show "\<not> distinct ?xs"
    using nth_eq_iff_index_eq [of ?xs 0 "2 ^ 64"] by auto
next
  let ?ys = "issued (replicate (2 ^ 63 + 1) (CallInsert example_context)) (initial_state False)"
  have a: "?ys ! (2 ^ 63) = word_of_nat (2 ^ 63)"
    unfolding issued_initial count_inserts_replicate
    by (subst nth_map) (simp_all del: upt_Suc of_nat_power of_nat_numeral)
  have b: "?ys ! (2 ^ 63 - 1) = word_of_nat (2 ^ 63 - 1)"
    unfolding issued_initial count_inserts_replicate
    by (subst nth_map) (simp_all del: upt_Suc of_nat_power of_nat_numeral)
  have "(word_of_nat (2 ^ 63) :: 64 word) <s word_of_nat (2 ^ 63 - 1)"
    by (simp add: word_sless_alt)
  with a b show "?ys ! (2 ^ 63) <s ?ys ! (2 ^ 63 - 1)" by simp
qed


lemma example_calls_state:
  "run_calls example_calls (initial_state False) =
     (initial_state False)
       \<lparr>context_id_counter := 2,
        autograd_contexts := [1 \<mapsto> \<lparr>output_grad_fn = Some 1, input_grad_fns = []\<rparr>]\<rparr>"
  by (simp add: example_calls_def Insert_eq Pop_def initial_state_def emplace_def fun_upd_twist)

text \<open>The theorem on the history of two Inserts and a \<open>Pop\<close> of the first id.\<close>

theorem AutogradContextCache_wrapping_ids_witness:
  "issued example_calls (initial_state False) = [0, 1]
   \<and> Insert example_context (run_calls example_calls (initial_state False)) =
       (2, (initial_state False)
             \<lparr>context_id_counter := 3,
              autograd_contexts :=
                [1 \<mapsto> \<lparr>output_grad_fn = Some 1, input_grad_fns = []\<rparr>, 2 \<mapsto> example_context]\<rparr>)
   \<and> fst (Pop 2 (snd (Insert example_context (run_calls example_calls (initial_state False)))))
       = Inr example_context
   \<and> fst (Pop 1 (run_calls example_calls (initial_state False)))
       = Inr \<lparr>output_grad_fn = Some 1, input_grad_fns = []\<rparr>
   \<and> fst (Pop 1 (snd (Pop 1 (run_calls example_calls (initial_state False)))))
       = Inl (TORCH_INTERNAL_ASSERT 200)
   \<and> Pop 0 (run_calls example_calls (initial_state False))
       = (Inl (TORCH_INTERNAL_ASSERT 200), run_calls example_calls (initial_state False))"
proof -
  let ?s = "run_calls example_calls (initial_state False)"
  have n: "count_inserts example_calls = 2"
    by (simp add: example_calls_def)
  have present: "autograd_contexts ?s 1 = Some \<lparr>output_grad_fn = Some 1, input_grad_fns = []\<rparr>"
    and absent: "autograd_contexts ?s 0 = None"
    by (simp_all add: example_calls_state)
  have c: "2 = count_inserts example_calls" and lt: "(2::nat) < 2 ^ 64"
    using n by simp_all
  note hist = AutogradContextCache_wrapping_ids
    [where s = ?s and calls = example_calls and mode = False and n = 2 and ctx = example_context,
     THEN conjunct1, THEN mp, OF conjI [OF refl c]]
  note fresh = hist [THEN conjunct2, THEN conjunct2, THEN conjunct2, THEN mp, OF lt]
  have ids: "issued example_calls (initial_state False) = [0, 1]"
    using hist [THEN conjunct1] by (simp add: upt_conv_Cons)
  have pop2: "fst (Pop 2 (snd (Insert example_context ?s))) = Inr example_context"
    using fresh [THEN conjunct2] by simp
  have ins: "Insert example_context ?s =
       (2, (initial_state False)
             \<lparr>context_id_counter := 3,
              autograd_contexts :=
                [1 \<mapsto> \<lparr>output_grad_fn = Some 1, input_grad_fns = []\<rparr>, 2 \<mapsto> example_context]\<rparr>)"
    using fresh [THEN conjunct1] by (simp add: example_calls_state)
  note hit = AutogradContextCache_wrapping_ids
    [where t = ?s and k = 1 and c = "\<lparr>output_grad_fn = Some 1, input_grad_fns = []\<rparr>",
     THEN conjunct2, THEN conjunct1, THEN mp, OF present]
  have pop1: "fst (Pop 1 ?s) = Inr \<lparr>output_grad_fn = Some 1, input_grad_fns = []\<rparr>"
    using hit [THEN conjunct1] by simp
  have again: "fst (Pop 1 (snd (Pop 1 ?s))) = Inl (TORCH_INTERNAL_ASSERT 200)"
    by (rule hit [THEN conjunct2])
  note miss = AutogradContextCache_wrapping_ids
    [where t = ?s and k = 0, THEN conjunct2, THEN conjunct2, THEN mp, OF absent, THEN conjunct1]
  have pop0: "Pop 0 ?s = (Inl (TORCH_INTERNAL_ASSERT 200), ?s)"
    using miss by simp
  from ids ins pop2 pop1 again pop0 show ?thesis by simp
qed

subsection \<open>Both walks return\<close>

lemma walk_edges_subset: "walk_edges g \<subseteq> graph_edges g"
  by (auto simp: walk_edges_def graph_edges_def)

lemma wf_walk_edges:
  assumes "finite (graph_edges g)" and "acyclic (graph_edges g)"
  shows "wf (walk_edges g)"
proof -
  have "wf (graph_edges g)"
    using assms by (rule finite_acyclic_wf)
  then show ?thesis
    by (rule wf_subset) (rule walk_edges_subset)
qed

lemma wf_queue_order:
  assumes "wf (walk_edges g)"
  shows "wf (queue_order g)"
proof -
  have "queue_order g \<subseteq> inv_image (walk_edges g) the"
    by (auto simp: queue_order_def inv_image_def)
  moreover have "wf (inv_image (walk_edges g) the)"
    using assms by (rule wf_inv_image)
  ultimately show ?thesis by (rule wf_subset [rotated])
qed

lemma collect_edges_pushes:
  "collect_edges g m edges q fns = Inr (q', fns') \<Longrightarrow>
     \<exists>pushed. q' = q @ pushed \<and> (\<forall>x \<in> set pushed. \<exists>c. x = Some c \<and> Some c \<in> set edges
        \<and> name (g c) \<noteq> AccumulateGrad_name)"
proof (induction edges arbitrary: q fns)
  case Nil
  then show ?case by simp
next
  case (Cons e edges)
  show ?case
  proof (cases e)
    case None
    with Cons.prems show ?thesis by simp
  next
    case (Some f)
    show ?thesis
    proof (cases "name (g f) = AccumulateGrad_name")
      case True
      with Cons.prems Some obtain fns1 where "collect_edges g m edges q fns1 = Inr (q', fns')"
        by (auto split: option.splits sum.splits)
      from Cons.IH [OF this] show ?thesis by fastforce
    next
      case False
      with Cons.prems Some have "collect_edges g m edges (q @ [Some f]) fns = Inr (q', fns')"
        by simp
      from Cons.IH [OF this] obtain pushed where
        "q' = (q @ [Some f]) @ pushed"
        "\<forall>x \<in> set pushed. \<exists>c. x = Some c \<and> Some c \<in> set edges \<and> name (g c) \<noteq> AccumulateGrad_name"
        by blast
      with False Some show ?thesis
        by (intro exI [of _ "Some f # pushed"]) fastforce
    qed
  qed
qed

lemma queue_step_decreases:
  assumes "\<forall>x \<in> set pushed. \<exists>c. x = Some c \<and> Some c \<in> set (next_edges (g p))
        \<and> name (g c) \<noteq> AccumulateGrad_name"
  shows "(mset (rest @ pushed), mset (Some p # rest)) \<in> mult (queue_order g)"
proof -
  have "\<forall>b. b \<in># mset pushed \<longrightarrow> (b, Some p) \<in> queue_order g"
    using assms by (auto simp: queue_order_def walk_edges_def)
  then have "(mset rest + mset pushed, add_mset (Some p) (mset rest)) \<in> mult1 (queue_order g)"
    unfolding mult1_def by blast
  then show ?thesis
    by (simp add: mult_def)
qed

lemma forward_walk_Nil: "forward_walk g m [] fns = Some (Inr fns)"
  by (subst forward_walk.simps) simp

lemma forward_walk_null: "forward_walk g m (None # rest) fns = Some (Inl null_dereference)"
  by (subst forward_walk.simps) simp

lemma forward_walk_node:
  "forward_walk g m (Some p # rest) fns =
     (case collect_edges g m (next_edges (g p)) rest fns of
        Inl e \<Rightarrow> Some (Inl e)
      | Inr (q', fns') \<Rightarrow> forward_walk g m q' fns')"
  by (subst forward_walk.simps) simp

lemma forward_walk_induct [consumes 1, case_names empty null error step]:
  assumes "wf (walk_edges g)"
    and "\<And>fns. P [] fns"
    and "\<And>rest fns. P (None # rest) fns"
    and "\<And>p rest fns e. collect_edges g m (next_edges (g p)) rest fns = Inl e \<Longrightarrow> P (Some p # rest) fns"
    and "\<And>p rest fns q' fns'. collect_edges g m (next_edges (g p)) rest fns = Inr (q', fns') \<Longrightarrow>
           P q' fns' \<Longrightarrow> P (Some p # rest) fns"
  shows "P q fns"
proof -
  have wfm: "wf (mult (queue_order g))"
    using assms(1) by (intro wf_mult wf_queue_order)
  have "\<forall>q fns. M = mset q \<longrightarrow> P q fns" for M
  proof (induction M rule: wf_induct_rule [OF wfm])
    case (1 M)
    show ?case
    proof (intro allI impI)
      fix q fns
      assume M: "M = mset q"
      show "P q fns"
      proof (cases q)
        case Nil
        then show ?thesis by (simp add: assms(2))
      next
        case (Cons x rest)
        show ?thesis
        proof (cases x)
          case None
          with Cons show ?thesis by (simp add: assms(3))
        next
          case (Some p)
          show ?thesis
          proof (cases "collect_edges g m (next_edges (g p)) rest fns")
            case (Inl e)
            with Cons Some show ?thesis by (simp add: assms(4))
          next
            case (Inr qf)
            obtain q' fns' where qf: "qf = (q', fns')" by (cases qf)
            from collect_edges_pushes [OF Inr [unfolded qf]] obtain pushed where
              q': "q' = rest @ pushed" and
              "\<forall>x \<in> set pushed. \<exists>c. x = Some c \<and> Some c \<in> set (next_edges (g p))
                 \<and> name (g c) \<noteq> AccumulateGrad_name"
              by blast
            then have "(mset q', M) \<in> mult (queue_order g)"
              using queue_step_decreases [of pushed g p rest] Cons Some M by simp
            from 1 [OF this] have "P q' fns'" by simp
            with Inr qf have "P (Some p # rest) fns" by (intro assms(5)) auto
            with Cons Some show ?thesis by simp
          qed
        qed
      qed
    qed
  qed
  then show ?thesis by simp
qed

lemma forward_walk_returns:
  assumes "wf (walk_edges g)"
  shows "\<exists>r. forward_walk g m q fns = Some r"
  using assms
  by (induction q fns rule: forward_walk_induct [where m = m])
     (simp_all add: forward_walk_Nil forward_walk_null forward_walk_node)

lemma deliver_gradients_pushes:
  "deliver_gradients g edges gradients q accu st dl = Inr (q', accu', st', dl') \<Longrightarrow>
     \<exists>pushed. q' = q @ pushed \<and> (\<forall>x \<in> set pushed. \<exists>c. fst x = Some c \<and> Some c \<in> set edges
        \<and> name (g c) \<noteq> AccumulateGrad_name)"
proof (induction g edges gradients q accu st dl rule: deliver_gradients.induct)
  case (1 g gradients q accu st dl)
  then show ?case by simp
next
  case (2 g edge edges q accu st dl)
  then show ?case by simp
next
  case (3 g edge edges gradient gradients q accu st dl)
  show ?case
  proof (cases edge)
    case None
    with "3.prems" show ?thesis by simp
  next
    case (Some f)
    show ?thesis
    proof (cases "name (g f) = AccumulateGrad_name")
      case acc: True
      show ?thesis
      proof (cases "f \<in> accu")
        case False
        with "3.prems" Some acc have
          "deliver_gradients g edges gradients q (insert f accu)
             (st\<lparr>grads := (grads st)(grad_address (variable (g f)) := Some gradient)\<rparr>)
             (dl @ [(f, contents st (impl gradient))]) = Inr (q', accu', st', dl')"
          by (simp add: Let_def)
        from "3.IH"(1) [OF Some acc refl refl False this] show ?thesis by fastforce
      next
        case True
        with "3.prems" Some acc obtain grad where
          gr: "grads st (grad_address (variable (g f))) = Some grad" and
          "deliver_gradients g edges gradients q accu
             (st\<lparr>contents := (contents st)
                  (impl grad := contents st (impl grad) + contents st (impl gradient))\<rparr>)
             (dl @ [(f, contents st (impl gradient))]) = Inr (q', accu', st', dl')"
          by (auto simp: Let_def split: option.splits)
        from "3.IH"(2) [OF Some acc refl refl _ gr this(2)] True show ?thesis by fastforce
      qed
    next
      case False
      with "3.prems" Some have
        "deliver_gradients g edges gradients (q @ [(Some f, gradient)]) accu st dl
           = Inr (q', accu', st', dl')"
        by simp
      from "3.IH"(3) [OF Some False this] obtain pushed where
        "q' = (q @ [(Some f, gradient)]) @ pushed"
        "\<forall>x \<in> set pushed. \<exists>c. fst x = Some c \<and> Some c \<in> set edges \<and> name (g c) \<noteq> AccumulateGrad_name"
        by blast
      with False Some show ?thesis
        by (intro exI [of _ "(Some f, gradient) # pushed"]) fastforce
    qed
  qed
qed

lemma backward_walk_returns:
  assumes "wf (walk_edges g)"
  shows "\<exists>r. backward_walk g call q accu st dl = Some r"
proof -
  have "wf (mult (queue_order g))"
    using assms by (intro wf_mult wf_queue_order)
  then show ?thesis
  proof (induction "mset (map fst q)" arbitrary: q accu st dl rule: wf_induct_rule)
    case less
    show ?case
    proof (cases q)
      case Nil
      then show ?thesis by (subst backward_walk.simps) simp
    next
      case (Cons unit rest)
      show ?thesis
      proof (cases "fst unit")
        case None
        with Cons show ?thesis by (subst backward_walk.simps) simp
      next
        case (Some p)
        obtain gradients st1 where call: "call p [snd unit] st = (gradients, st1)"
          by (cases "call p [snd unit] st")
        show ?thesis
        proof (cases "length gradients \<noteq> length (next_edges (g p))")
          case True
          with Cons Some call show ?thesis by (subst backward_walk.simps) simp
        next
          case len: False
          show ?thesis
          proof (cases "deliver_gradients g (next_edges (g p)) gradients rest accu st1 dl")
            case (Inl e)
            with Cons Some call len show ?thesis by (subst backward_walk.simps) simp
          next
            case (Inr res)
            obtain q' accu' st' dl' where res: "res = (q', accu', st', dl')"
              by (cases res)
            from deliver_gradients_pushes [OF Inr [unfolded res]] obtain pushed where
              q': "q' = rest @ pushed" and
              "\<forall>x \<in> set pushed. \<exists>c. fst x = Some c \<and> Some c \<in> set (next_edges (g p))
                 \<and> name (g c) \<noteq> AccumulateGrad_name"
              by blast
            then have "\<forall>x \<in> set (map fst pushed). \<exists>c. x = Some c \<and> Some c \<in> set (next_edges (g p))
                 \<and> name (g c) \<noteq> AccumulateGrad_name"
              by auto
            then have "(mset (map fst q'), mset (map fst q)) \<in> mult (queue_order g)"
              using queue_step_decreases [of "map fst pushed" g p "map fst rest"] Cons Some q'
              by simp
            from less [OF this] obtain r where "backward_walk g call q' accu' st' dl' = Some r"
              by blast
            with Cons Some call len Inr res show ?thesis
              by (subst backward_walk.simps) simp
          qed
        qed
      qed
    qed
  qed
qed

lemma example_graph_edges:
  "graph_edges example_graph = {(6, 5), (7, 5), (10, 6), (11, 6), (10, 7)}"
  by (auto simp: graph_edges_def example_graph_def split: if_splits)

lemma example_graph_finite: "finite (graph_edges example_graph)"
  by (simp add: example_graph_edges)

lemma example_graph_acyclic: "acyclic (graph_edges example_graph)"
proof -
  have "graph_edges example_graph \<subseteq> less_than\<inverse>"
    by (auto simp: example_graph_edges)
  moreover have "acyclic (less_than\<inverse>)"
    by (simp add: wf_acyclic)
  ultimately show ?thesis by (rule acyclic_subset [rotated])
qed

lemma example_forward_walk:
  "forward_walk example_graph [3 \<mapsto> 0, 4 \<mapsto> 1] [Some 5] [None, None]
     = Some (Inr [Some 10, Some 11])"
  by (simp add: forward_walk.simps example_graph_def AccumulateGrad_name_def grad_address_def
      example_tensor_def vector_at_def)

lemma example_backward_walk:
  "backward_walk example_graph example_call [(Some 5, example_tensor 50)] {} example_store []
     = Some (Inr (\<lparr>contents = (\<lambda>a. if a = 50 then 3 else if a = 100 then 2 else 0),
                    grads = (\<lambda>a. if a = 3 \<or> a = 4 then Some (example_tensor 50) else None)\<rparr>,
                  [(10, 1), (11, 1), (10, 2)]))"
  by (simp add: backward_walk.simps example_graph_def AccumulateGrad_name_def grad_address_def
      example_tensor_def example_call_def example_store_def Let_def fun_eq_iff)

text \<open>
  Claim C9. On a graph with finitely many edges and no cycle, the forward walk over
  \<open>next_edges\<close> in \<open>ExecuteATenOperator\<close> and the gradient walk in
  \<open>ExecuteATenOpBackward\<close> both return, from every queue and every state of their other
  variables: each iteration takes one node off the queue and pushes only successors of
  that node that are no accumulators. (A walk that returns may return a failure: a null
  function pointer, or the assertion of line 316.)
\<close>

theorem walks_terminate:
  assumes "finite (graph_edges g)" and "acyclic (graph_edges g)"
  shows "(\<exists>r. forward_walk g grad_ptr_to_indices grad_fn_queue fns = Some r)
       \<and> (\<exists>r. backward_walk g call execution_queue accu_set st delivered = Some r)"
  using forward_walk_returns [OF wf_walk_edges [OF assms]]
    backward_walk_returns [OF wf_walk_edges [OF assms]]
  by blast

text \<open>The theorem on the example graph, for the walks a forward and a backward call start.\<close>

theorem walks_terminate_witness:
  "finite (graph_edges example_graph) \<and> acyclic (graph_edges example_graph)
   \<and> (\<exists>r. forward_walk example_graph [3 \<mapsto> 0, 4 \<mapsto> 1] [Some 5] [None, None] = Some r)
   \<and> (\<exists>r. backward_walk example_graph example_call [(Some 5, example_tensor 50)] {}
              example_store [] = Some r)"
  using walks_terminate [OF example_graph_finite example_graph_acyclic,
      where grad_ptr_to_indices = "[3 \<mapsto> 0, 4 \<mapsto> 1]" and grad_fn_queue = "[Some 5]"
        and fns = "[None, None]" and call = example_call
        and execution_queue = "[(Some 5, example_tensor 50)]" and accu_set = "{}"
        and st = example_store and delivered = "[]"]
    example_graph_finite example_graph_acyclic
  by blast

subsection \<open>The forward walk: accumulators and null edges\<close>

lemma fns_step_Nil: "fns_step g m [] fns fns"
  by (simp add: fns_step_def)

lemma fns_step_skip:
  assumes "fns_step g m edges fns fns'" and "\<And>i. \<not> keyed g m f i"
  shows "fns_step g m (Some f # edges) fns fns'"
  using assms unfolding fns_step_def by auto

lemma fns_step_kept:
  assumes "fns_step g m edges fns fns'" and "idx < length fns" and "fns ! idx = Some b"
    and "name (g f) = AccumulateGrad_name" and "m (grad_address (variable (g f))) = Some idx"
  shows "fns_step g m (Some f # edges) fns fns'"
  using assms unfolding fns_step_def keyed_def by auto

lemma fns_step_set:
  assumes "fns_step g m edges (fns[idx := Some f]) fns'" and "idx < length fns" and "fns ! idx = None"
    and "name (g f) = AccumulateGrad_name" and "m (grad_address (variable (g f))) = Some idx"
  shows "fns_step g m (Some f # edges) fns fns'"
  unfolding fns_step_def
proof (intro conjI allI impI)
  show "length fns' = length fns"
    using assms(1) by (simp add: fns_step_def)
next
  fix i a assume "i < length fns" "fns ! i = Some a"
  with assms(1,3) show "fns' ! i = Some a"
    by (cases "i = idx") (auto simp: fns_step_def)
next
  fix i b assume i: "i < length fns" and b: "fns' ! i = Some b"
  from assms(1) i b have "fns[idx := Some f] ! i = Some b \<or> (Some b \<in> set edges \<and> keyed g m b i)"
    by (simp add: fns_step_def)
  then show "fns ! i = Some b \<or> (Some b \<in> set (Some f # edges) \<and> keyed g m b i)"
    using assms(2,4,5) i by (cases "i = idx") (auto simp: keyed_def)
next
  fix a i assume ai: "Some a \<in> set (Some f # edges) \<and> keyed g m a i"
  show "i < length fns"
    using ai assms by (auto simp: fns_step_def keyed_def)
  show "fns' ! i \<noteq> None"
  proof (cases "a = f")
    case True
    with ai assms(5) have "i = idx" by (simp add: keyed_def)
    with assms(1,2) show ?thesis by (auto simp: fns_step_def)
  next
    case False
    with ai assms(1) show ?thesis by (auto simp: fns_step_def)
  qed
qed

lemma collect_edges_fns:
  "collect_edges g m edges q fns = Inr (q', fns') \<Longrightarrow> fns_step g m edges fns fns'"
proof (induction edges arbitrary: q fns)
  case Nil
  then show ?case by (simp add: fns_step_Nil)
next
  case (Cons e edges)
  show ?case
  proof (cases e)
    case None
    with Cons.prems show ?thesis by simp
  next
    case (Some f)
    show ?thesis
    proof (cases "name (g f) = AccumulateGrad_name")
      case False
      with Cons.prems Some have "collect_edges g m edges (q @ [Some f]) fns = Inr (q', fns')"
        by simp
      from Cons.IH [OF this] False Some show ?thesis
        by (auto intro: fns_step_skip simp: keyed_def)
    next
      case acc: True
      show ?thesis
      proof (cases "m (grad_address (variable (g f)))")
        case None
        with Cons.prems Some acc have "collect_edges g m edges q fns = Inr (q', fns')"
          by simp
        from Cons.IH [OF this] None Some show ?thesis
          by (auto intro: fns_step_skip simp: keyed_def)
      next
        case (Some idx)
        note key = this
        from Cons.prems \<open>e = Some f\<close> acc key have idx: "idx < length fns"
          by (auto simp: vector_at_def split: if_splits)
        show ?thesis
        proof (cases "fns ! idx")
          case None
          with Cons.prems \<open>e = Some f\<close> acc key idx
          have "collect_edges g m edges q (fns[idx := Some f]) = Inr (q', fns')"
            by (simp add: vector_at_def)
          from Cons.IH [OF this] show ?thesis
            unfolding \<open>e = Some f\<close> using idx None acc key by (rule fns_step_set)
        next
          case (Some b)
          with Cons.prems \<open>e = Some f\<close> acc key idx
          have "collect_edges g m edges q fns = Inr (q', fns')"
            by (simp add: vector_at_def)
          from Cons.IH [OF this] show ?thesis
            unfolding \<open>e = Some f\<close> using idx Some acc key by (rule fns_step_kept)
        qed
      qed
    qed
  qed
qed

lemma collect_edges_pushed_all:
  "collect_edges g m edges q fns = Inr (q', fns') \<Longrightarrow>
     set q \<subseteq> set q' \<and> (\<forall>c. Some c \<in> set edges \<and> name (g c) \<noteq> AccumulateGrad_name \<longrightarrow> Some c \<in> set q')"
proof (induction edges arbitrary: q fns)
  case Nil
  then show ?case by simp
next
  case (Cons e edges)
  show ?case
  proof (cases e)
    case None
    with Cons.prems show ?thesis by simp
  next
    case (Some f)
    show ?thesis
    proof (cases "name (g f) = AccumulateGrad_name")
      case True
      with Cons.prems Some obtain fns1 where "collect_edges g m edges q fns1 = Inr (q', fns')"
        by (auto split: option.splits sum.splits)
      from Cons.IH [OF this] True Some show ?thesis by auto
    next
      case False
      with Cons.prems Some have "collect_edges g m edges (q @ [Some f]) fns = Inr (q', fns')"
        by simp
      from Cons.IH [OF this] Some show ?thesis by auto
    qed
  qed
qed

lemma collect_edges_no_error:
  assumes "None \<notin> set edges" and "\<forall>a i. m a = Some i \<longrightarrow> i < length fns"
  shows "\<exists>r. collect_edges g m edges q fns = Inr r"
  using assms
proof (induction edges arbitrary: q fns)
  case Nil
  then show ?case by simp
next
  case (Cons e edges)
  then obtain f where e: "e = Some f" by (cases e) auto
  from Cons.prems have rest: "None \<notin> set edges" by simp
  show ?case
  proof (cases "name (g f) = AccumulateGrad_name")
    case False
    with e Cons.IH [OF rest Cons.prems(2)] show ?thesis by simp
  next
    case acc: True
    show ?thesis
    proof (cases "m (grad_address (variable (g f)))")
      case None
      with e acc Cons.IH [OF rest Cons.prems(2)] show ?thesis by simp
    next
      case (Some idx)
      with Cons.prems(2) have idx: "idx < length fns" by blast
      have "\<forall>a i. m a = Some i \<longrightarrow> i < length (fns[idx := Some f])"
        using Cons.prems(2) by simp
      from Cons.IH [OF rest this] Cons.IH [OF rest Cons.prems(2)] e acc Some idx
      show ?thesis
        by (cases "fns ! idx") (simp_all add: vector_at_def)
    qed
  qed
qed

lemma walk_result_step:
  assumes step: "collect_edges g m (next_edges (g p)) rest fns = Inr (q1, fns1)"
    and rec: "walk_result g m q1 fns1 fns'"
  shows "walk_result g m (Some p # rest) fns fns'"
proof -
  from collect_edges_fns [OF step] have fs: "fns_step g m (next_edges (g p)) fns fns1" .
  from collect_edges_pushed_all [OF step] have
    sub: "set rest \<subseteq> set q1" and
    all: "\<And>c. Some c \<in> set (next_edges (g p)) \<Longrightarrow> name (g c) \<noteq> AccumulateGrad_name \<Longrightarrow> Some c \<in> set q1"
    by auto
  have len1: "length fns1 = length fns" using fs by (simp add: fns_step_def)
  show ?thesis
    unfolding walk_result_def
  proof (intro conjI allI impI)
    show "length fns' = length fns"
      using rec len1 by (simp add: walk_result_def)
  next
    fix i a assume "i < length fns" "fns ! i = Some a"
    then show "fns' ! i = Some a"
      using fs rec len1 by (simp add: fns_step_def walk_result_def)
  next
    fix i b assume i: "i < length fns" and b: "fns' ! i = Some b"
    then have "fns1 ! i = Some b \<or> keyed g m b i"
      using rec len1 by (simp add: walk_result_def)
    then show "fns ! i = Some b \<or> keyed g m b i"
      using fs i by (auto simp: fns_step_def)
  next
    fix p0 p' a i
    assume h: "Some p0 \<in> set (Some p # rest) \<and> (p', p0) \<in> (walk_edges g)\<^sup>*
            \<and> Some a \<in> set (next_edges (g p')) \<and> keyed g m a i"
    have "i < length fns \<and> fns' ! i \<noteq> None"
    proof (cases "Some p0 \<in> set rest")
      case True
      with sub have "Some p0 \<in> set q1" by blast
      with h rec len1 show ?thesis
        unfolding walk_result_def by metis
    next
      case False
      with h have p0: "p0 = p" by simp
      from h have "(p', p) \<in> (walk_edges g)\<^sup>*" by (simp add: p0)
      then show ?thesis
      proof (cases rule: rtranclE)
        case base
        with h fs have "i < length fns" "fns1 ! i \<noteq> None"
          by (auto simp: fns_step_def)
        then obtain b where "fns1 ! i = Some b" by auto
        with \<open>i < length fns\<close> rec len1 show ?thesis
          by (simp add: walk_result_def)
      next
        case (step c)
        from step(2) have "Some c \<in> set q1"
          by (auto simp: walk_edges_def intro: all)
        with step(1) h rec len1 show ?thesis
          unfolding walk_result_def by metis
      qed
    qed
    then show "i < length fns" and "fns' ! i \<noteq> None" by simp_all
  qed
qed

lemma forward_walk_result:
  assumes "wf (walk_edges g)"
  shows "forward_walk g m q fns = Some (Inr fns') \<longrightarrow> walk_result g m q fns fns'"
  using assms
proof (induction q fns rule: forward_walk_induct [where m = m])
  case (empty fns)
  then show ?case by (simp add: forward_walk_Nil walk_result_def)
next
  case (null rest fns)
  then show ?case by (simp add: forward_walk_null)
next
  case (error p rest fns e)
  then show ?case by (simp add: forward_walk_node)
next
  case (step p rest fns q' fns1)
  then show ?case
    by (auto simp: forward_walk_node intro: walk_result_step)
qed

lemma no_null_edges_child:
  assumes "no_null_edges g p" and "Some c \<in> set (next_edges (g p))"
    and "name (g c) \<noteq> AccumulateGrad_name"
  shows "no_null_edges g c"
proof -
  have "(c, p) \<in> walk_edges g"
    using assms(2,3) by (simp add: walk_edges_def)
  then show ?thesis
    using assms(1) unfolding no_null_edges_def
    by (meson rtrancl.rtrancl_into_rtrancl)
qed

lemma forward_walk_no_error:
  assumes "wf (walk_edges g)"
  shows "(\<forall>x \<in> set q. \<exists>p. x = Some p \<and> no_null_edges g p) \<longrightarrow>
         (\<forall>a i. m a = Some i \<longrightarrow> i < length fns) \<longrightarrow>
         (\<exists>fns'. forward_walk g m q fns = Some (Inr fns'))"
  using assms
proof (induction q fns rule: forward_walk_induct [where m = m])
  case (empty fns)
  then show ?case by (simp add: forward_walk_Nil)
next
  case (null rest fns)
  then show ?case by simp
next
  case (error p rest fns e)
  show ?case
  proof (intro impI)
    assume q: "\<forall>x \<in> set (Some p # rest). \<exists>p. x = Some p \<and> no_null_edges g p"
      and r: "\<forall>a i. m a = Some i \<longrightarrow> i < length fns"
    from q have "None \<notin> set (next_edges (g p))"
      by (auto simp: no_null_edges_def)
    from collect_edges_no_error [OF this r, of g rest] error show
      "\<exists>fns'. forward_walk g m (Some p # rest) fns = Some (Inr fns')"
      by auto
  qed
next
  case (step p rest fns q1 fns1)
  show ?case
  proof (intro impI)
    assume q: "\<forall>x \<in> set (Some p # rest). \<exists>p. x = Some p \<and> no_null_edges g p"
      and r: "\<forall>a i. m a = Some i \<longrightarrow> i < length fns"
    from collect_edges_pushes [OF step(1)] obtain pushed where
      q1: "q1 = rest @ pushed" and
      pushed: "\<forall>x \<in> set pushed. \<exists>c. x = Some c \<and> Some c \<in> set (next_edges (g p))
         \<and> name (g c) \<noteq> AccumulateGrad_name"
      by blast
    from q have p: "no_null_edges g p" by simp
    have "\<forall>x \<in> set q1. \<exists>p. x = Some p \<and> no_null_edges g p"
    proof
      fix x assume "x \<in> set q1"
      then consider "x \<in> set rest" | "x \<in> set pushed" using q1 by auto
      then show "\<exists>p. x = Some p \<and> no_null_edges g p"
      proof cases
        case 1
        with q show ?thesis by simp
      next
        case 2
        with pushed obtain c where "x = Some c" "Some c \<in> set (next_edges (g p))"
          "name (g c) \<noteq> AccumulateGrad_name" by blast
        with no_null_edges_child [OF p] show ?thesis by blast
      qed
    qed
    moreover have "length fns1 = length fns"
      using collect_edges_fns [OF step(1)] by (simp add: fns_step_def)
    with r have "\<forall>a i. m a = Some i \<longrightarrow> i < length fns1" by simp
    ultimately have "\<exists>fns'. forward_walk g m q1 fns1 = Some (Inr fns')"
      using step(2) by blast
    then show "\<exists>fns'. forward_walk g m (Some p # rest) fns = Some (Inr fns')"
      using step(1) by (simp add: forward_walk_node)
  qed
qed

lemma check_input_grad_fns_all:
  "check_input_grad_fns fns = Inr () \<longleftrightarrow> None \<notin> set fns"
  by (induction fns) (auto split: option.splits)

lemma mark_requires_grad_range:
  "mark_requires_grad aten_op i n args m = Inr (args', m') \<Longrightarrow>
     (\<forall>a j. m a = Some j \<longrightarrow> j < n) \<Longrightarrow> (\<forall>a j. m' a = Some j \<longrightarrow> j < n)"
proof (induction aten_op i n args m rule: mark_requires_grad.induct)
  case (1 aten_op i n args m)
  show ?case
  proof (cases "i < n")
    case False
    with "1.prems" show ?thesis by (subst (asm) mark_requires_grad.simps) simp
  next
    case True
    from "1.prems"(1) True obtain is_optional argument tensor where
      a: "vector_at (is_optional_arguments aten_op) i = Inr is_optional"
      and b: "vector_at args i = Inr argument"
      and c: "(if is_optional then toOptionalTensor_value argument else toTensor argument) = Inr tensor"
      and d: "mark_requires_grad aten_op (i + 1) n
                (args[i := IV_Tensor (tensor\<lparr>requires_grad := True\<rparr>)])
                (m(grad_address (tensor\<lparr>requires_grad := True\<rparr>) \<mapsto> i)) = Inr (args', m')"
      by (subst (asm) mark_requires_grad.simps) (auto simp: Let_def split: sum.splits)
    have "\<forall>a j. (m(grad_address (tensor\<lparr>requires_grad := True\<rparr>) \<mapsto> i)) a = Some j \<longrightarrow> j < n"
      using "1.prems"(2) True by auto
    from "1.IH" [OF True a b c refl d this] show ?thesis .
  qed
qed

lemma forward_walk_keeps:
  assumes "wf (walk_edges g)"
    and "forward_walk g m q fs = Some (Inr fs')" and "i < length fs" and "fs ! i = Some a"
  shows "fs' ! i = Some a"
  using forward_walk_result [OF assms(1), of m q fs fs'] assms(2-4)
  by (simp add: walk_result_def)

lemma forward_walk_assigns:
  assumes wf: "wf (walk_edges g)"
    and range: "\<forall>a j. m a = Some j \<longrightarrow> j < n"
    and nonnull: "no_null_edges g p0"
    and reach: "\<forall>i<n. \<exists>p a. (p, p0) \<in> (walk_edges g)\<^sup>* \<and> Some a \<in> set (next_edges (g p))
                  \<and> keyed g m a i"
  shows "\<exists>fns. forward_walk g m [Some p0] (replicate n None) = Some (Inr fns)
           \<and> length fns = n
           \<and> (\<forall>i<n. \<exists>a. fns ! i = Some a \<and> keyed g m a i)
           \<and> check_input_grad_fns fns = Inr ()"
proof -
  from range have range': "\<forall>a j. m a = Some j \<longrightarrow> j < length (replicate n (None :: nat option))"
    by simp
  from nonnull have "\<forall>x \<in> set [Some p0]. \<exists>p. x = Some p \<and> no_null_edges g p" by simp
  with forward_walk_no_error [OF wf, of "[Some p0]" m "replicate n None"] range'
  obtain fns where fns: "forward_walk g m [Some p0] (replicate n None) = Some (Inr fns)"
    by blast
  with forward_walk_result [OF wf, of m "[Some p0]" "replicate n None" fns]
  have res: "walk_result g m [Some p0] (replicate n None) fns" by simp
  then have len: "length fns = n" by (simp add: walk_result_def)
  have found: "\<exists>a. fns ! i = Some a \<and> keyed g m a i" if "i < n" for i
  proof -
    from reach that obtain p a where "(p, p0) \<in> (walk_edges g)\<^sup>*"
      "Some a \<in> set (next_edges (g p))" "keyed g m a i" by blast
    with res have "fns ! i \<noteq> None"
      unfolding walk_result_def by (metis list.set_intros(1))
    then obtain b where b: "fns ! i = Some b" by auto
    with res that have "keyed g m b i" by (simp add: walk_result_def)
    with b show ?thesis by blast
  qed
  have "None \<notin> set fns"
  proof
    assume "None \<in> set fns"
    then obtain i where "i < length fns" "fns ! i = None"
      by (auto simp: in_set_conv_nth)
    with found [of i] len show False by simp
  qed
  then have "check_input_grad_fns fns = Inr ()"
    by (simp add: check_input_grad_fns_all)
  with fns len found show ?thesis by blast
qed

lemma example_walk_edge: "(6, 5) \<in> (walk_edges example_graph)\<^sup>*"
  by (rule r_into_rtrancl) (simp add: walk_edges_def example_graph_def AccumulateGrad_name_def)

lemma example_no_null_edges: "no_null_edges example_graph p"
  by (simp add: no_null_edges_def example_graph_def)

lemma example_affine_get:
  "GetOperator example_torch ''example::affine'' [] (initial_state mode) =
     (Inr (derived_operator example_affine),
      (initial_state mode)\<lparr>ops := [(''example::affine'', []) \<mapsto> derived_operator example_affine]\<rparr>)"
  by (simp add: GetOperator_def example_torch_def initial_state_def example_affine_def
      example_affine_schema_def argument_metadata_def emplace_def derived_operator_def Let_def)

lemma example_affine_derived:
  "derived_operator example_affine =
     \<lparr>op = example_affine, argument_size = 2, elem_kinds = [TensorType, TensorType],
      is_list_arguments = [False, False], is_optional_arguments = [False, False],
      default_values = [None, None], return_size = 1\<rparr>"
  by (simp add: derived_operator_def example_affine_def example_affine_schema_def)

lemma example_convert:
  "convert_arguments example_torch (derived_operator example_affine) example_dlpacks 0 []
     = Inr example_arguments"
  "length example_dlpacks = 2"
  by (simp_all add: example_affine_derived ToIValueArgument_def vector_at_def example_torch_def
      example_dlpack_def example_arguments_def example_dlpacks_def)

lemma example_mark:
  "mark_requires_grad (derived_operator example_affine) 0 (Suc 0) example_arguments Map.empty =
     Inr (example_marked 1, [3 \<mapsto> 0])"
  "mark_requires_grad (derived_operator example_affine) 0 (Suc (Suc 0)) example_arguments Map.empty =
     Inr (example_marked 2, [3 \<mapsto> 0, 4 \<mapsto> 1])"
  by (simp_all add: mark_requires_grad.simps example_affine_derived example_marked_def
      example_arguments_def vector_at_def toTensor_def grad_address_def example_tensor_def)

lemma example_affine_fields:
  "op (derived_operator example_affine) = example_affine"
  "argument_size (derived_operator example_affine) = 2"
  "return_size (derived_operator example_affine) = 1"
  by (simp_all add: example_affine_derived)

lemma example_affine_run:
  "getOperation example_affine recording (example_marked n) =
     ([IV_Tensor (example_output recording)],
      if 1 < n then example_graph else example_null_graph)"
  by (simp add: example_affine_def example_marked_def example_tensor_def)

lemma example_null_walk:
  "forward_walk example_null_graph [3 \<mapsto> 0] [Some 5] [None] = Some (Inl null_dereference)"
  by (simp add: forward_walk_node example_null_graph_def example_graph_def AccumulateGrad_name_def
      grad_address_def example_tensor_def vector_at_def)

lemma example_execute_null:
  "ExecuteATenOperator example_torch ''example::affine'' [] example_dlpacks [0] (Some 0)
      (initial_state False) =
     Some (Inl null_dereference,
           (initial_state False)
             \<lparr>ops := [(''example::affine'', []) \<mapsto> derived_operator example_affine],
              executed := [(example_affine, example_marked 1)]\<rparr>)"
  by (simp add: ExecuteATenOperator_def example_affine_get example_convert example_mark
      example_affine_fields ExecuteInternal_def example_affine_run toTensor_def example_null_walk
      example_output_def Let_def)
    (simp add: initial_state_def)

lemma example_null_graph_edges:
  "graph_edges example_null_graph \<subseteq> graph_edges example_graph"
  by (auto simp: graph_edges_def example_null_graph_def example_graph_def split: if_splits)

lemma example_null_graph_finite: "finite (graph_edges example_null_graph)"
  using example_null_graph_edges example_graph_finite by (rule finite_subset)

lemma example_null_graph_acyclic: "acyclic (graph_edges example_null_graph)"
  using example_graph_acyclic example_null_graph_edges by (rule acyclic_subset)

text \<open>
  What the walk does on a graph without null edges. Let the graph the operation leaves
  be finite and acyclic, let \<open>grad_ptr_to_indices\<close> be the map the loop over
  \<open>requires_grad\<close> built, let the output's \<open>grad_fn\<close> be a node \<open>p0\<close>, not null, from
  which the walk meets no edge with a null function, and let every index below the
  length of \<open>requires_grad\<close> have an accumulator keyed to it on an edge of a node the
  walk reaches from \<open>p0\<close>. Then the walk returns with \<open>input_grad_fns\<close> of that length,
  every entry set to an accumulator keyed to the entry's index, and the loop asserting
  that every entry is set passes. Moreover a walk never changes an entry that is set:
  an index keeps the first accumulator stored at it.
\<close>

theorem forward_walk_finds_accumulators:
  assumes "finite (graph_edges g)" and "acyclic (graph_edges g)"
  shows "(mark_requires_grad aten_op 0 n arguments' Map.empty = Inr (marked, m)
          \<and> no_null_edges g p0
          \<and> (\<forall>i<n. \<exists>p a. (p, p0) \<in> (walk_edges g)\<^sup>* \<and> Some a \<in> set (next_edges (g p)) \<and> keyed g m a i)
          \<longrightarrow> (\<exists>fns. forward_walk g m [Some p0] (replicate n None) = Some (Inr fns)
                  \<and> length fns = n
                  \<and> (\<forall>i<n. \<exists>a. fns ! i = Some a \<and> keyed g m a i)
                  \<and> check_input_grad_fns fns = Inr ()))
       \<and> (forward_walk g m' q fs = Some (Inr fs') \<and> i < length fs \<and> fs ! i = Some a
          \<longrightarrow> fs' ! i = Some a)"
proof -
  have wf: "wf (walk_edges g)"
    using assms by (rule wf_walk_edges)
  have range: "\<forall>a j. m a = Some j \<longrightarrow> j < n"
    if "mark_requires_grad aten_op 0 n arguments' Map.empty = Inr (marked, m)"
    using mark_requires_grad_range [OF that] by simp
  show ?thesis
    using forward_walk_assigns [OF wf, of m n p0] range forward_walk_keeps [OF wf, of m' q fs fs' i a]
    by blast
qed

text \<open>The theorem on the example graph, both inputs requiring a gradient.\<close>

theorem forward_walk_finds_accumulators_witness:
  "finite (graph_edges example_graph) \<and> acyclic (graph_edges example_graph)
   \<and> mark_requires_grad (derived_operator example_affine) 0 2 example_arguments Map.empty
       = Inr (example_marked 2, [3 \<mapsto> 0, 4 \<mapsto> 1])
   \<and> no_null_edges example_graph 5
   \<and> keyed example_graph [3 \<mapsto> 0, 4 \<mapsto> 1] 10 0
   \<and> keyed example_graph [3 \<mapsto> 0, 4 \<mapsto> 1] 11 1
   \<and> forward_walk example_graph [3 \<mapsto> 0, 4 \<mapsto> 1] [Some 5] (replicate 2 None)
       = Some (Inr [Some 10, Some 11])
   \<and> check_input_grad_fns [Some 10, Some 11] = Inr ()"
proof -
  let ?m = "[3 \<mapsto> 0, 4 \<mapsto> (1::nat)]"
  have mark: "mark_requires_grad (derived_operator example_affine) 0 2 example_arguments Map.empty
       = Inr (example_marked 2, ?m)"
    using example_mark(2) by (simp add: numeral_2_eq_2)
  have k0: "keyed example_graph ?m 10 0" and k1: "keyed example_graph ?m 11 1"
    by (simp_all add: keyed_def example_graph_def grad_address_def example_tensor_def)
  have e0: "Some 10 \<in> set (next_edges (example_graph 6))"
    and e1: "Some 11 \<in> set (next_edges (example_graph 6))"
    by (simp_all add: example_graph_def)
  have reach: "\<forall>i<2. \<exists>p a. (p, 5) \<in> (walk_edges example_graph)\<^sup>*
      \<and> Some a \<in> set (next_edges (example_graph p)) \<and> keyed example_graph ?m a i"
  proof (intro allI impI)
    fix i :: nat assume "i < 2"
    then consider "i = 0" | "i = 1" by linarith
    then show "\<exists>p a. (p, 5) \<in> (walk_edges example_graph)\<^sup>*
      \<and> Some a \<in> set (next_edges (example_graph p)) \<and> keyed example_graph ?m a i"
      using example_walk_edge e0 e1 k0 k1 by cases blast+
  qed
  from forward_walk_finds_accumulators
    [OF example_graph_finite example_graph_acyclic,
     where aten_op = "derived_operator example_affine" and n = 2 and arguments' = example_arguments
       and marked = "example_marked 2" and m = ?m and ?p0.0 = 5,
     THEN conjunct1, THEN mp, OF conjI [OF mark conjI [OF example_no_null_edges reach]]]
  obtain fns where
    walk: "forward_walk example_graph ?m [Some 5] (replicate 2 None) = Some (Inr fns)"
    and check: "check_input_grad_fns fns = Inr ()"
    by blast
  have "forward_walk example_graph ?m [Some 5] (replicate 2 None) = Some (Inr [Some 10, Some 11])"
    using example_forward_walk by (simp add: numeral_2_eq_2)
  with walk check have "check_input_grad_fns [Some 10, Some 11] = Inr ()"
    and "forward_walk example_graph ?m [Some 5] (replicate 2 None) = Some (Inr [Some 10, Some 11])"
    by simp_all
  with example_graph_finite example_graph_acyclic mark example_no_null_edges k0 k1
  show ?thesis by blast
qed

text \<open>
  Claim C4. Given a non-null \<open>p_context_id\<close> and, for every input requiring a gradient,
  an accumulator reachable from the output's \<open>grad_fn\<close> and keyed in
  \<open>grad_ptr_to_indices\<close>, the walk is to set every entry of \<open>input_grad_fns\<close> and the
  final assertion is to pass. On the call below the code does not get there. Of the two
  tensor inputs only the first requires a gradient (\<open>requires_grad\<close> has one entry);
  its accumulator (node 10) is on an edge of node 6, which the walk reaches from the
  output's \<open>grad_fn\<close> (node 5), and it is keyed to index 0. Node 6 has a second edge,
  for the input that requires no gradient, and the function of that edge is null, as
  autograd leaves it. The walk reads \<open>edge.function->name()\<close> through it without a
  test: the call fails on the null pointer after the operator has run, before the final
  assertion, and stores no context.
\<close>

theorem forward_walk_null_edge:
  "finite (graph_edges example_null_graph) \<and> acyclic (graph_edges example_null_graph)
   \<and> mark_requires_grad (derived_operator example_affine) 0 (length [0 :: 64 word])
        example_arguments Map.empty = Inr (example_marked 1, [3 \<mapsto> 0])
   \<and> getOperation example_affine True (example_marked 1)
       = ([IV_Tensor (example_output True)], example_null_graph)
   \<and> grad_fn (example_output True) = Some 5
   \<and> (6, 5) \<in> (walk_edges example_null_graph)\<^sup>*
   \<and> Some 10 \<in> set (next_edges (example_null_graph 6))
   \<and> keyed example_null_graph [3 \<mapsto> 0] 10 0
   \<and> forward_walk example_null_graph [3 \<mapsto> 0] [Some 5] (replicate (length [0 :: 64 word]) None)
       = Some (Inl null_dereference)
   \<and> ExecuteATenOperator example_torch ''example::affine'' [] example_dlpacks [0] (Some 0)
        (initial_state False) =
       Some (Inl null_dereference,
             (initial_state False)
               \<lparr>ops := [(''example::affine'', []) \<mapsto> derived_operator example_affine],
                executed := [(example_affine, example_marked 1)]\<rparr>)"
proof -
  have "(6, 5) \<in> (walk_edges example_null_graph)\<^sup>*"
    by (rule r_into_rtrancl)
      (simp add: walk_edges_def example_null_graph_def example_graph_def AccumulateGrad_name_def)
  moreover have "Some 10 \<in> set (next_edges (example_null_graph 6))"
    by (simp add: example_null_graph_def)
  moreover have "keyed example_null_graph [3 \<mapsto> 0] 10 0"
    by (simp add: keyed_def example_null_graph_def example_graph_def grad_address_def
        example_tensor_def)
  moreover have "getOperation example_affine True (example_marked 1)
       = ([IV_Tensor (example_output True)], example_null_graph)"
    by (simp add: example_affine_run)
  moreover have "grad_fn (example_output True) = Some 5"
    by (simp add: example_output_def)
  ultimately show ?thesis
    using example_null_graph_finite example_null_graph_acyclic example_mark(1) example_null_walk
      example_execute_null
    by simp
qed

text \<open>
  The failed call, read off the theorem: the operator has run once, no context is stored
  and the counter of context ids has not moved.
\<close>

theorem forward_walk_null_edge_witness:
  "(\<exists>s'. ExecuteATenOperator example_torch ''example::affine'' [] example_dlpacks [0] (Some 0)
            (initial_state False) = Some (Inl null_dereference, s')
         \<and> executed s' = [(example_affine, example_marked 1)]
         \<and> autograd_contexts s' = Map.empty
         \<and> context_id_counter s' = 0)"
  using forward_walk_null_edge by (simp add: initial_state_def)

subsection \<open>Executing an operator\<close>




lemma example_backward:
  "ExecuteATenOpBackward example_torch example_graph example_call (example_dlpack 50) 0
      example_after example_store =
     Some (Inr ([example_dlpack 50, example_dlpack 50], example_final_store,
                [(10, 1), (11, 1), (10, 2)]),
           example_after\<lparr>autograd_contexts := Map.empty\<rparr>)"
proof -
  have pop: "Pop 0 example_after =
      (Inr \<lparr>output_grad_fn = Some 5, input_grad_fns = [Some 10, Some 11]\<rparr>,
       example_after\<lparr>autograd_contexts := Map.empty\<rparr>)"
    by (simp add: Pop_def example_after_def)
  have from_dl: "fromDLPack example_torch (example_dlpack 50) = example_tensor 50"
    by (simp add: example_torch_def example_dlpack_def)
  have export: "export_input_grads example_torch example_graph example_final_store
      [Some 10, Some 11] [] = Inr [example_dlpack 50, example_dlpack 50]"
    by (simp add: example_graph_def example_final_store_def grad_address_def example_tensor_def
        example_torch_def)
  show ?thesis
    using example_backward_walk
    by (simp add: ExecuteATenOpBackward_def pop from_dl export example_final_store_def [symmetric]
        del: export_input_grads.simps)
qed

















lemma example_get:
  "GetOperator example_torch ''example::affine'' [] (initial_state False) =
     (Inr (derived_operator example_affine), example_cached)"
  by (simp add: example_affine_get example_cached_def)


lemma example_optional_get:
  "GetOperator example_optional_torch ''example::optional'' [] (initial_state mode) =
     (Inr (derived_operator example_optional),
      (initial_state mode)\<lparr>ops := [(''example::optional'', []) \<mapsto> derived_operator example_optional]\<rparr>)"
  by (simp add: GetOperator_def example_optional_torch_def initial_state_def example_optional_def
      argument_metadata_def emplace_def derived_operator_def Let_def)

lemma example_optional_derived:
  "derived_operator example_optional =
     \<lparr>op = example_optional, argument_size = 1, elem_kinds = [TensorType],
      is_list_arguments = [False], is_optional_arguments = [True],
      default_values = [None], return_size = 1\<rparr>"
  by (simp add: derived_operator_def example_optional_def)

lemma example_optional_null:
  "ExecuteATenOperator example_optional_torch ''example::optional'' [] [None] [0] None
      (initial_state False) =
     Some (Inl bad_optional_access,
           (initial_state False)\<lparr>ops := [(''example::optional'', []) \<mapsto> derived_operator example_optional]\<rparr>)"
  by (simp add: ExecuteATenOperator_def example_optional_get)
    (simp add: example_optional_derived ToIValueArgument_def vector_at_def
      mark_requires_grad.simps toOptionalTensor_value_def)



lemma example_wrong_count:
  "ExecuteATenOperator example_torch ''example::affine'' [] [Some (example_dlpack 3)] [] None
      (initial_state False) = Some (Inl (TORCH_INTERNAL_ASSERT 250), example_cached)"
  by (simp add: ExecuteATenOperator_def example_get example_affine_fields)






subsection \<open>The backward call on shared gradient tensors\<close>

text \<open>
  Claim C2 at the graph of \<open>(a + b) + 2 * a\<close>, in the state \<open>example_after\<close> that the
  forward call recording it leaves (lemma \<open>example_execute\<close>).
  The incoming gradient (impl 50) holds 1. The inner addition hands that same tensor to
  the accumulators of \<open>a\<close> and of \<open>b\<close>: both are visited for the first time, so both
  gradient slots receive the handle, with no copy. The multiplication then delivers a
  new tensor holding 2 to the accumulator of \<open>a\<close>, which adds it in place to the tensor
  in its slot, the one \<open>b\<close> holds too. The call returns one managed tensor per saved
  accumulator, in input order, but the gradient of \<open>b\<close> now holds 3, while the only
  gradient delivered to its accumulator (node 11) held 1; the gradient of \<open>a\<close> holds 3,
  the sum of the 1 and the 2 delivered to node 10.
\<close>

theorem ExecuteATenOpBackward_shared_gradient:
  "ExecuteATenOpBackward example_torch example_graph example_call (example_dlpack 50) 0
        example_after example_store =
       Some (Inr ([example_dlpack 50, example_dlpack 50], example_final_store,
                  [(10, 1), (11, 1), (10, 2)]),
             example_after\<lparr>autograd_contexts := Map.empty\<rparr>)
   \<and> delivered_to 11 [(10, 1), (11, 1), (10, 2 :: int)] = [1]
   \<and> delivered_to 10 [(10, 1), (11, 1), (10, 2 :: int)] = [1, 2]
   \<and> grads example_final_store (grad_address (variable (example_graph 11)))
       = Some (example_tensor 50)
   \<and> grads example_final_store (grad_address (variable (example_graph 10)))
       = Some (example_tensor 50)
   \<and> contents example_final_store (impl (example_tensor 50)) = 3"
  using example_backward
  by (simp add: delivered_to_def example_final_store_def example_graph_def grad_address_def
      example_tensor_def)

subsection \<open>A walk on a cycle, and what the backward call exports\<close>

text \<open>
  Without the condition on cycles the forward walk need not return: on the graph whose
  nodes are their own successors the queue is the same after every iteration.
\<close>

lemma forward_walk_cycle_aux:
  assumes "forward_walk g m q fns = Some y"
  shows "\<not> (g = example_cycle \<and> (\<exists>p. q = [Some p]))"
proof (rule forward_walk.raw_induct
    [where P = "\<lambda>g m q fns y. \<not> (g = example_cycle \<and> (\<exists>p. q = [Some p]))", OF _ assms])
  fix walk g m q fns y
  assume IH: "\<And>g m q fns y. walk g m q fns = Some y \<Longrightarrow> \<not> (g = example_cycle \<and> (\<exists>p. q = [Some p]))"
    and body: "(case q of [] \<Rightarrow> Some (Inr fns)
      | None # rest \<Rightarrow> Some (Inl null_dereference)
      | Some p # rest \<Rightarrow>
          (case collect_edges g m (next_edges (g p)) rest fns of
             Inl e \<Rightarrow> Some (Inl e)
           | Inr (grad_fn_queue, fns) \<Rightarrow> walk g m grad_fn_queue fns)) = Some y"
  show "\<not> (g = example_cycle \<and> (\<exists>p. q = [Some p]))"
  proof
    assume "g = example_cycle \<and> (\<exists>p. q = [Some p])"
    then obtain p where g: "g = example_cycle" and q: "q = [Some p]" by blast
    have "collect_edges example_cycle m [Some p] [] fns = Inr ([Some p], fns)"
      by (simp add: example_cycle_def AccumulateGrad_name_def)
    with body g q have "walk example_cycle m [Some p] fns = Some y"
      by (simp add: example_cycle_def)
    from IH [OF this] show False by blast
  qed
qed

lemma forward_walk_cycle: "forward_walk example_cycle m [Some p] fns = None"
proof (cases "forward_walk example_cycle m [Some p] fns")
  case None
  then show ?thesis .
next
  case (Some y)
  from forward_walk_cycle_aux [OF this] show ?thesis by simp
qed

text \<open>
  The loop at the end of the backward call, when it returns, has appended one managed
  tensor per saved accumulator, in the order of \<open>input_grad_fns\<close>, each exported from the
  tensor in that accumulator's gradient slot, made contiguous when it was not.
\<close>

lemma export_input_grads_one_each:
  "export_input_grads h g st fns result = Inr r \<Longrightarrow>
     \<exists>exported. r = result @ map (toDLPack h) exported \<and> length exported = length fns
       \<and> list_all is_contiguous exported
       \<and> (\<forall>i<length fns. \<exists>a t. fns ! i = Some a \<and> grads st (grad_address (variable (g a))) = Some t
              \<and> exported ! i = (if is_contiguous t then t else contiguous t))"
proof (induction fns arbitrary: result)
  case Nil
  then show ?case by simp
next
  case (Cons f fns)
  from Cons.prems obtain a t where f: "f = Some a"
    and t: "grads st (grad_address (variable (g a))) = Some t"
    and rest: "export_input_grads h g st fns
        (result @ [toDLPack h (if is_contiguous t then t else contiguous t)]) = Inr r"
    by (auto split: option.splits)
  from Cons.IH [OF rest] obtain exported where
    r: "r = (result @ [toDLPack h (if is_contiguous t then t else contiguous t)]) @ map (toDLPack h) exported"
    and len: "length exported = length fns"
    and contig: "list_all is_contiguous exported"
    and each: "\<forall>i<length fns. \<exists>a t. fns ! i = Some a \<and> grads st (grad_address (variable (g a))) = Some t
              \<and> exported ! i = (if is_contiguous t then t else contiguous t)"
    by blast
  let ?first = "if is_contiguous t then t else contiguous t"
  have "\<forall>i<length (f # fns). \<exists>a t. (f # fns) ! i = Some a
      \<and> grads st (grad_address (variable (g a))) = Some t
      \<and> (?first # exported) ! i = (if is_contiguous t then t else contiguous t)"
  proof (intro allI impI)
    fix i assume "i < length (f # fns)"
    then show "\<exists>a t. (f # fns) ! i = Some a
      \<and> grads st (grad_address (variable (g a))) = Some t
      \<and> (?first # exported) ! i = (if is_contiguous t then t else contiguous t)"
      using f t each by (cases i) auto
  qed
  moreover have "list_all is_contiguous (?first # exported)"
    using contig by (simp add: contiguous_def)
  ultimately show ?case
    using r len by (intro exI [of _ "?first # exported"]) simp
qed

end
